theory Spec2Isabelle
  imports Complex_Main "HOL-Library.Word"
begin

unbundle bit_operations_syntax

section \<open>Errors and logging shared by the importers\<close>

text \<open>
  The importers report a fatal condition by throwing: \<open>DeadlyImportError\<close> almost
  everywhere, \<open>std::runtime_error\<close> in \<open>LWS::Element::Parse\<close>.  A throw is the
  \<open>Inl\<close> branch of a sum.  Messages written to the logger are collected in a list,
  oldest first.
\<close>

datatype import_error = DeadlyImportError string | runtime_error string

type_synonym log = "string list"


section \<open>LWS importer: the flat node list and its hierarchy\<close>

text \<open>
  \<open>LWS::NodeDesc\<close> as far as \<open>LWSImporter::InternReadFile\<close> and
  \<open>LWSImporter::BuildGraph\<close> use it for the hierarchy.  The nodes live in a
  \<open>std::list\<close>; a \<open>NodeDesc*\<close> is modelled by the position of the node in that
  list, the null pointer by \<open>None\<close>.  Names, animation channels, light parameters
  and the pivot are payload that no hierarchy decision reads; they are left out.
\<close>

datatype NodeType = OBJECT | LIGHT | CAMERA | BONE

record NodeDesc =
  ntype :: NodeType
  number :: "32 word"
  parent :: "32 word"
  path :: string
  id_req :: nat
  children :: "nat list"
  parent_resolved :: "nat option"

definition AI_LWS_MASK :: "32 word" where
  \<comment> \<open>Modelled from the spec: the macro of LWSLoader.h, which is not among the sources;
      the low 28 bits of an item identifier hold its number.\<close>
  "AI_LWS_MASK = 0x0FFFFFFF"

fun type_code :: "NodeType \<Rightarrow> 32 word" where
  "type_code OBJECT = 1"
| "type_code LIGHT = 2"
| "type_code CAMERA = 3"
| "type_code BONE = 4"

definition node_eq :: "NodeType \<Rightarrow> 32 word \<Rightarrow> 32 word \<Rightarrow> bool" where
  \<comment> \<open>Modelled from the spec: \<open>NodeDesc::operator==(unsigned int)\<close> of LWSLoader.h, which
      is not among the sources ("find all nodes whose declared parent equals this node's
      id"): an identifier is the type in the high 4 bits and the number in the low 28;
      0 names no node.  The first two arguments are the \<open>type\<close> and \<open>number\<close> of the node
      that is compared.\<close>
  "node_eq t n num \<longleftrightarrow>
     num \<noteq> 0 \<and> drop_bit 28 num = type_code t \<and> (num AND AI_LWS_MASK) = n"

text \<open>
  The body of the two nested loops under \<open>// resolve parenting\<close>: \<open>i\<close> is the position of
  \<open>ndIt\<close>, \<open>j\<close> the position of \<open>dit\<close>.  The comparison \<open>*ndIt == (*dit).parent\<close> is the
  parameter \<open>eq\<close>, applied to the type and number of \<open>*ndIt\<close>, so that everything
  proved about the resolution holds for any identifier scheme; \<open>node_eq\<close> is the one of
  the header.
\<close>

definition cross_reference :: string where
  "cross_reference = ''LWS: Found cross reference in scene-graph''"

definition claims ::
  "(NodeType \<Rightarrow> 32 word \<Rightarrow> 32 word \<Rightarrow> bool) \<Rightarrow> NodeDesc list \<Rightarrow> nat \<Rightarrow> nat \<Rightarrow> bool"
where
  "claims eq ns i j \<longleftrightarrow> j \<noteq> i \<and> eq (ntype (ns ! i)) (number (ns ! i)) (parent (ns ! j))"

definition attach ::
  "(NodeType \<Rightarrow> 32 word \<Rightarrow> 32 word \<Rightarrow> bool) \<Rightarrow> nat \<Rightarrow> nat \<Rightarrow> NodeDesc list \<times> log
     \<Rightarrow> NodeDesc list \<times> log"
where
  "attach eq i j st =
     (case st of (ns, lg) \<Rightarrow>
        if claims eq ns i j then
          (if parent_resolved (ns ! j) \<noteq> None
           then (ns, lg @ [cross_reference])
           else (ns[i := (ns ! i)\<lparr>children := children (ns ! i) @ [j]\<rparr>,
                    j := (ns ! j)\<lparr>parent_resolved := Some i\<rparr>], lg))
        else (ns, lg))"

definition resolve_parenting ::
  "(NodeType \<Rightarrow> 32 word \<Rightarrow> 32 word \<Rightarrow> bool) \<Rightarrow> NodeDesc list \<times> log \<Rightarrow> NodeDesc list \<times> log"
where
  "resolve_parenting eq st =
     fold (\<lambda>i. fold (attach eq i) [0..<length (fst st)]) [0..<length (fst st)] st"

text \<open>\<open>// find out how many nodes have no parent yet\<close>\<close>

definition no_parent :: "NodeDesc list \<Rightarrow> nat" where
  "no_parent ns = length (filter (\<lambda>n. parent_resolved n = None) ns)"

text \<open>The nodes that \<open>InternReadFile\<close> hands to \<open>BuildGraph\<close>, in list order.\<close>

definition roots :: "NodeDesc list \<Rightarrow> nat list" where
  "roots ns = filter (\<lambda>i. parent_resolved (ns ! i) = None) [0..<length ns]"

subsection \<open>Reading the elements into the node list\<close>

text \<open>
  \<open>InternReadFile\<close> walks the top-level elements of the parsed file.  An element is
  given here with its tokens already decoded by \<open>strtoul10\<close>/\<open>strtoul16\<close> (fast_atof.h is
  not among the sources): the explicit item number of LWSC 4 files and the rest of the
  line.  Elements that only fill in payload of the last node are \<open>OtherElement\<close>.
\<close>

datatype Element =
    LoadObjectLayer nat "32 word" string
  | LoadObject "32 word" string
  | AddNullObject "32 word" string
  | Channel
  | ParentItem "32 word"
  | ParentObject "32 word"
  | AddCamera "32 word"
  | AddLight "32 word"
  | OtherElement

text \<open>
  \<open>LWSImporter::FindLWOFile\<close>.  \<open>ex\<close> is \<open>io->Exists\<close>, \<open>sep\<close> is
  \<open>io->getOsSeparator()\<close>.
\<close>

definition FindLWOFile :: "(string \<Rightarrow> bool) \<Rightarrow> char \<Rightarrow> string \<Rightarrow> string" where
  "FindLWOFile ex sep inp =
     (let tmp = (if length inp > 3 \<and> inp ! 1 = CHR '':'' \<and> inp ! 2 \<noteq> CHR 0x5C \<and> inp ! 2 \<noteq> CHR ''/''
                 then inp ! 0 # ([CHR '':'', CHR 0x5C] @ drop 2 inp) else inp)
      in if ex tmp then inp
         else let test = ''..'' @ (sep # tmp)
              in if ex test then test
                 else let test2 = ''..'' @ (sep # test)
                      in if ex test2 then test2 else tmp)"

text \<open>
  The batch loader.  A request is a path with the layer property it was registered with
  (\<open>None\<close> for \<open>LoadObject\<close>, which passes no property map).
\<close>

type_synonym request = "string \<times> nat option"

definition AddLoadRequest :: "request \<Rightarrow> request list \<Rightarrow> nat \<times> request list" where
  \<comment> \<open>Modelled from the spec: \<open>BatchLoader::AddLoadRequest\<close>, which is not among the
      sources ("registers a load request keyed by resolved path, deduplicating identical
      requests"); the handle of a request is its position in the queue.\<close>
  "AddLoadRequest r reqs =
     (if r \<in> set reqs then (length (takeWhile (\<lambda>x. x \<noteq> r) reqs), reqs)
      else (length reqs, reqs @ [r]))"

definition GetImport :: "(request \<Rightarrow> 'scene option) \<Rightarrow> request list \<Rightarrow> nat \<Rightarrow> 'scene option" where
  \<comment> \<open>Modelled from the spec: \<open>BatchLoader::LoadAll\<close> followed by
      \<open>BatchLoader::GetImport\<close>, which are not among the sources; \<open>load\<close> is the reader
      dispatch on the external file, \<open>None\<close> when the file is missing or its import
      failed.\<close>
  "GetImport load reqs h = (if h < length reqs then load (reqs ! h) else None)"

definition quoted :: "string \<Rightarrow> string" where
  "quoted s = CHR 0x27 # s @ [CHR 0x27]"

record read_state =
  nodes :: "NodeDesc list"
  requests :: "request list"
  cur_object :: "32 word"
  cur_camera :: "32 word"
  cur_light :: "32 word"
  num_camera :: "32 word"
  num_light :: "32 word"
  messages :: log

definition new_node :: "NodeType \<Rightarrow> 32 word \<Rightarrow> NodeDesc" where
  "new_node t n = \<lparr>ntype = t, number = n, parent = 0, path = [], id_req = 0,
                   children = [], parent_resolved = None\<rparr>"

definition object_number :: "nat \<Rightarrow> 32 word \<Rightarrow> read_state \<Rightarrow> 32 word \<times> read_state" where
  "object_number version explicit s =
     (if version \<ge> 4 then (explicit AND AI_LWS_MASK, s)
      else (cur_object s, s\<lparr>cur_object := cur_object s + 1\<rparr>))"

definition set_last_parent :: "32 word \<Rightarrow> string \<Rightarrow> read_state \<Rightarrow> read_state" where
  "set_last_parent p msg s =
     (if nodes s = [] then s\<lparr>messages := messages s @ [msg]\<rparr>
      else s\<lparr>nodes := butlast (nodes s) @ [(last (nodes s))\<lparr>parent := p\<rparr>]\<rparr>)"

fun read_element ::
  "(string \<Rightarrow> bool) \<Rightarrow> char \<Rightarrow> string \<Rightarrow> nat \<Rightarrow> bool \<Rightarrow> Element \<Rightarrow> read_state
     \<Rightarrow> import_error + read_state"
where
  "read_element ex sep pFile version motion_file (LoadObjectLayer layer explicit c) s =
     (let (n, s1) = object_number version explicit s;
          p = FindLWOFile ex sep c
      in if p = [] then Inl (DeadlyImportError ''LWS: Invalid LoadObjectLayer: empty path.'')
         else if p = pFile then Inl (DeadlyImportError ''LWS: Invalid LoadObjectLayer: self reference.'')
         else let (h, rs) = AddLoadRequest (p, Some layer) (requests s1)
              in Inr (s1\<lparr>nodes := nodes s1 @ [(new_node OBJECT n)\<lparr>path := p, id_req := h\<rparr>],
                         requests := rs\<rparr>))"
| "read_element ex sep pFile version motion_file (LoadObject explicit c) s =
     (let (n, s1) = object_number version explicit s;
          p = FindLWOFile ex sep c
      in if p = [] then Inl (DeadlyImportError ''LWS: Invalid LoadObject: empty path.'')
         else if p = pFile then Inl (DeadlyImportError ''LWS: Invalid LoadObject: self reference.'')
         else let (h, rs) = AddLoadRequest (p, None) (requests s1)
              in Inr (s1\<lparr>nodes := nodes s1 @ [(new_node OBJECT n)\<lparr>path := p, id_req := h\<rparr>],
                         requests := rs\<rparr>))"
| "read_element ex sep pFile version motion_file (AddNullObject explicit c) s =
     (let (n, s1) = object_number version explicit s
      in Inr (s1\<lparr>nodes := nodes s1 @ [new_node OBJECT n]\<rparr>))"
| "read_element ex sep pFile version motion_file Channel s =
     (if nodes s = [] then
        (let s1 = (if motion_file
                   then s\<lparr>nodes := [new_node OBJECT (cur_object s)], cur_object := cur_object s + 1\<rparr>
                   else s)
         in Inr (s1\<lparr>messages := messages s1 @ [''LWS: Unexpected keyword: '' @ quoted ''Channel'']\<rparr>))
      else Inr s)"
| "read_element ex sep pFile version motion_file (ParentItem p) s =
     Inr (set_last_parent p (''LWS: Unexpected keyword: '' @ quoted ''ParentItem'') s)"
| "read_element ex sep pFile version motion_file (ParentObject p) s =
     (if version < 3
      then Inr (set_last_parent (p OR push_bit 28 1) (''LWS: Unexpected keyword: '' @ quoted ''ParentObject'') s)
      else Inr s)"
| "read_element ex sep pFile version motion_file (AddCamera explicit) s =
     (let (n, s1) = (if version \<ge> 4 then (explicit AND AI_LWS_MASK, s)
                     else (cur_camera s, s\<lparr>cur_camera := cur_camera s + 1\<rparr>))
      in Inr (s1\<lparr>nodes := nodes s1 @ [new_node CAMERA n], num_camera := num_camera s1 + 1\<rparr>))"
| "read_element ex sep pFile version motion_file (AddLight explicit) s =
     (let (n, s1) = (if version \<ge> 4 then (explicit AND AI_LWS_MASK, s)
                     else (cur_light s, s\<lparr>cur_light := cur_light s + 1\<rparr>))
      in Inr (s1\<lparr>nodes := nodes s1 @ [new_node LIGHT n], num_light := num_light s1 + 1\<rparr>))"
| "read_element ex sep pFile version motion_file OtherElement s = Inr s"

fun read_elements ::
  "(string \<Rightarrow> bool) \<Rightarrow> char \<Rightarrow> string \<Rightarrow> nat \<Rightarrow> bool \<Rightarrow> Element list \<Rightarrow> read_state
     \<Rightarrow> import_error + read_state"
where
  "read_elements ex sep pFile version motion_file [] s = Inr s"
| "read_elements ex sep pFile version motion_file (e # es) s =
     (case read_element ex sep pFile version motion_file e s of
        Inl err \<Rightarrow> Inl err
      | Inr s1 \<Rightarrow> read_elements ex sep pFile version motion_file es s1)"

definition initial_state :: read_state where
  "initial_state = \<lparr>nodes = [], requests = [], cur_object = 0, cur_camera = 0, cur_light = 0,
                     num_camera = 0, num_light = 0, messages = []\<rparr>"

subsection \<open>Building the output graph\<close>

text \<open>
  \<open>LWSImporter::BuildGraph\<close> creates one \<open>aiNode\<close> per node description it visits; an
  object gets a second node below it, the attachment node, which receives the children
  and the external scene.  The function recurses through the \<open>children\<close> pointers, so
  the model carries fuel: \<open>None\<close> means that the recursion did not come back within it.
\<close>

datatype tag = Root | Item nat | Attachment nat

datatype aiNode = aiNode tag "aiNode list"

fun BuildGraph ::
  "nat \<Rightarrow> (nat \<Rightarrow> 'scene option) \<Rightarrow> NodeDesc list \<Rightarrow> nat \<Rightarrow> ('scene \<times> tag) list \<times> log
     \<Rightarrow> (aiNode \<times> ('scene \<times> tag) list \<times> log) option"
and BuildChildren ::
  "nat \<Rightarrow> (nat \<Rightarrow> 'scene option) \<Rightarrow> NodeDesc list \<Rightarrow> nat list \<Rightarrow> ('scene \<times> tag) list \<times> log
     \<Rightarrow> (aiNode list \<times> ('scene \<times> tag) list \<times> log) option"
where
  "BuildGraph 0 get ns i st = None"
| "BuildGraph (Suc fuel) get ns i st =
     (case st of (att, lg) \<Rightarrow>
      let src = ns ! i;
          ext = (ntype src = OBJECT \<and> path src \<noteq> []);
          obj = (if ext then get (id_req src) else None);
          lg1 = (if ext \<and> obj = None
                 then lg @ [''LWS: Failed to read external file '' @ path src] else lg);
          att1 = (case obj of None \<Rightarrow> att | Some sc \<Rightarrow> att @ [(sc, Attachment i)])
      in case BuildChildren fuel get ns (children src) (att1, lg1) of
           None \<Rightarrow> None
         | Some (kids, st2) \<Rightarrow>
             Some (if ntype src = OBJECT then aiNode (Item i) [aiNode (Attachment i) kids]
                   else aiNode (Item i) kids, st2))"
| "BuildChildren fuel get ns [] st = Some ([], st)"
| "BuildChildren fuel get ns (c # cs) st =
     (case BuildGraph fuel get ns c st of
        None \<Rightarrow> None
      | Some (nd, st1) \<Rightarrow>
          (case BuildChildren fuel get ns cs st1 of
             None \<Rightarrow> None
           | Some (nds, st2) \<Rightarrow> Some (nd # nds, st2)))"

subsection \<open>The import\<close>

text \<open>
  \<open>LWSImporter::InternReadFile\<close> from the element loop on: read the elements, resolve
  parenting, refuse a scene without root, load the external files and build the master
  graph under \<open><LWSRoot>\<close>.  The result is the master graph with the attachment table
  that is handed to \<open>SceneCombiner::MergeScenes\<close> (not among the sources).
\<close>

record 'scene master_scene =
  mRootNode :: aiNode
  attachments :: "('scene \<times> tag) list"
  mNumCameras :: "32 word"
  mNumLights :: "32 word"
  logged :: log

definition InternReadFile ::
  "nat \<Rightarrow> (NodeType \<Rightarrow> 32 word \<Rightarrow> 32 word \<Rightarrow> bool) \<Rightarrow> (string \<Rightarrow> bool) \<Rightarrow> char \<Rightarrow> (request \<Rightarrow> 'scene option)
     \<Rightarrow> string \<Rightarrow> nat \<Rightarrow> bool \<Rightarrow> Element list \<Rightarrow> (import_error + 'scene master_scene) option"
where
  "InternReadFile fuel eq ex sep load pFile version motion_file elems =
     (case read_elements ex sep pFile version motion_file elems initial_state of
        Inl err \<Rightarrow> Some (Inl err)
      | Inr s \<Rightarrow>
          (case resolve_parenting eq (nodes s, messages s) of (ns, lg) \<Rightarrow>
             if no_parent ns = 0
             then Some (Inl (DeadlyImportError ''LWS: Unable to find scene root node''))
             else (case BuildChildren fuel (GetImport load (requests s)) ns (roots ns) ([], lg) of
                     None \<Rightarrow> None
                   | Some (kids, att, lg2) \<Rightarrow>
                       Some (Inr \<lparr>mRootNode = aiNode Root kids, attachments = att,
                                  mNumCameras = num_camera s, mNumLights = num_light s,
                                  logged = lg2\<rparr>))))"

subsection \<open>Reading the output graph\<close>

text \<open>
  The node descriptions an output graph was built from, in preorder, and the chain of
  resolved parents: \<open>up ns k j\<close> is the \<open>k\<close>-th ancestor of node \<open>j\<close>.
\<close>

fun items :: "aiNode \<Rightarrow> nat list" where
  "items (aiNode t kids) = (case t of Item i \<Rightarrow> [i] | _ \<Rightarrow> []) @ concat (map items kids)"

fun up :: "NodeDesc list \<Rightarrow> nat \<Rightarrow> nat \<Rightarrow> nat option" where
  "up ns 0 j = Some j"
| "up ns (Suc k) j = (case parent_resolved (ns ! j) of None \<Rightarrow> None | Some p \<Rightarrow> up ns k p)"

text \<open>
  The state the resolution leaves behind is consistent when child lists and resolved
  parents describe the same edges, inside the list, without repetition.
\<close>

definition linked :: "NodeDesc list \<Rightarrow> bool" where
  "linked ns \<longleftrightarrow>
     (\<forall>i<length ns. distinct (children (ns ! i)) \<and>
        (\<forall>j\<in>set (children (ns ! i)). j < length ns \<and> parent_resolved (ns ! j) = Some i)) \<and>
     (\<forall>j<length ns. \<forall>i. parent_resolved (ns ! j) = Some i \<longrightarrow>
        i < length ns \<and> j \<in> set (children (ns ! i)))"

text \<open>
  What the comparison reads of a node: the resolution never writes these members.
\<close>

definition ident :: "NodeDesc \<Rightarrow> NodeType \<times> 32 word \<times> 32 word" where
  "ident n = (ntype n, number n, parent n)"

definition resolved_count :: "NodeDesc list \<Rightarrow> nat" where
  "resolved_count ns = length (filter (\<lambda>n. parent_resolved n \<noteq> None) ns)"

text \<open>The number of pairs \<open>(ndIt, dit)\<close> for which the comparison of the loop holds.\<close>

definition claim_count ::
  "(NodeType \<Rightarrow> 32 word \<Rightarrow> 32 word \<Rightarrow> bool) \<Rightarrow> NodeDesc list \<Rightarrow> nat"
where
  "claim_count eq ns =
     sum_list (map (\<lambda>i. length (filter (claims eq ns i) [0..<length ns])) [0..<length ns])"

text \<open>Nodes as the element loop leaves them: no child, no resolved parent.\<close>

definition fresh :: "NodeDesc list \<Rightarrow> bool" where
  "fresh ns \<longleftrightarrow> list_all (\<lambda>n. children n = [] \<and> parent_resolved n = None) ns"

text \<open>
  A node is at depth \<open>d\<close> when its \<open>d\<close>-th ancestor has no resolved parent; \<open>below ns v\<close>
  are the nodes that have \<open>v\<close> on their parent chain, \<open>v\<close> included.
\<close>

definition at_depth :: "NodeDesc list \<Rightarrow> nat \<Rightarrow> nat \<Rightarrow> bool" where
  "at_depth ns d v \<longleftrightarrow>
     v < length ns \<and> (\<exists>r. up ns d v = Some r \<and> parent_resolved (ns ! r) = None)"

definition below :: "NodeDesc list \<Rightarrow> nat \<Rightarrow> nat set" where
  "below ns v = {w. w < length ns \<and> (\<exists>k. up ns k w = Some v)}"

text \<open>
  What \<open>BuildGraph\<close> does for the external files of the nodes it visits: an object with
  a path whose scene the batch loader delivers is entered in the attachment table, one
  whose scene is missing is reported and gets nothing attached.
\<close>

definition external :: "NodeDesc list \<Rightarrow> nat \<Rightarrow> bool" where
  "external ns i \<longleftrightarrow> ntype (ns ! i) = OBJECT \<and> path (ns ! i) \<noteq> []"



subsection \<open>Example scenes\<close>

text \<open>Two null objects of an LWSC 5 file, each naming the other as its parent.\<close>

definition two_cycle :: "Element list" where
  "two_cycle = [AddNullObject 1 ''a'', ParentItem 0x10000002,
                AddNullObject 2 ''b'', ParentItem 0x10000001]"

definition two_cycle_nodes :: "NodeDesc list" where
  "two_cycle_nodes =
     [\<lparr>ntype = OBJECT, number = 1, parent = 0x10000002, path = [], id_req = 0,
       children = [], parent_resolved = None\<rparr>,
      \<lparr>ntype = OBJECT, number = 2, parent = 0x10000001, path = [], id_req = 0,
       children = [], parent_resolved = None\<rparr>]"

text \<open>
  The scenario of a root whose parent points to one of its own descendants: \<open>R\<close> has the
  children \<open>X\<close> and \<open>Y\<close>, and \<open>R\<close> names \<open>X\<close> as its parent.
\<close>

definition root_below_child :: "Element list" where
  "root_below_child = [AddNullObject 1 ''R'', ParentItem 0x10000002,
                       AddNullObject 2 ''X'', ParentItem 0x10000001,
                       AddNullObject 3 ''Y'', ParentItem 0x10000001]"

definition root_below_child_nodes :: "NodeDesc list" where
  "root_below_child_nodes =
     [\<lparr>ntype = OBJECT, number = 1, parent = 0x10000002, path = [], id_req = 0,
       children = [], parent_resolved = None\<rparr>,
      \<lparr>ntype = OBJECT, number = 2, parent = 0x10000001, path = [], id_req = 0,
       children = [], parent_resolved = None\<rparr>,
      \<lparr>ntype = OBJECT, number = 3, parent = 0x10000001, path = [], id_req = 0,
       children = [], parent_resolved = None\<rparr>]"

text \<open>
  Two objects with the same number 1, a third object that names number 1 as its parent,
  and two objects that name each other.
\<close>

definition twice_claimed :: "Element list" where
  "twice_claimed = [AddNullObject 1 ''A'', AddNullObject 1 ''B'',
                    AddNullObject 2 ''C'', ParentItem 0x10000001,
                    AddNullObject 5 ''E'', ParentItem 0x10000006,
                    AddNullObject 6 ''F'', ParentItem 0x10000005]"

definition twice_claimed_nodes :: "NodeDesc list" where
  "twice_claimed_nodes =
     [\<lparr>ntype = OBJECT, number = 1, parent = 0, path = [], id_req = 0,
       children = [], parent_resolved = None\<rparr>,
      \<lparr>ntype = OBJECT, number = 1, parent = 0, path = [], id_req = 0,
       children = [], parent_resolved = None\<rparr>,
      \<lparr>ntype = OBJECT, number = 2, parent = 0x10000001, path = [], id_req = 0,
       children = [], parent_resolved = None\<rparr>,
      \<lparr>ntype = OBJECT, number = 5, parent = 0x10000006, path = [], id_req = 0,
       children = [], parent_resolved = None\<rparr>,
      \<lparr>ntype = OBJECT, number = 6, parent = 0x10000005, path = [], id_req = 0,
       children = [], parent_resolved = None\<rparr>]"

definition twice_claimed_resolved :: "NodeDesc list" where
  "twice_claimed_resolved =
     [\<lparr>ntype = OBJECT, number = 1, parent = 0, path = [], id_req = 0,
       children = [2], parent_resolved = None\<rparr>,
      \<lparr>ntype = OBJECT, number = 1, parent = 0, path = [], id_req = 0,
       children = [], parent_resolved = None\<rparr>,
      \<lparr>ntype = OBJECT, number = 2, parent = 0x10000001, path = [], id_req = 0,
       children = [], parent_resolved = Some 0\<rparr>,
      \<lparr>ntype = OBJECT, number = 5, parent = 0x10000006, path = [], id_req = 0,
       children = [4], parent_resolved = Some 4\<rparr>,
      \<lparr>ntype = OBJECT, number = 6, parent = 0x10000005, path = [], id_req = 0,
       children = [3], parent_resolved = Some 3\<rparr>]"


definition loads_missing :: "Element list" where
  "loads_missing = [LoadObject 1 ''part.lwo'', LoadObject 2 ''gone.lwo'']"

definition here :: "string \<Rightarrow> bool" where
  "here p \<longleftrightarrow> p = ''part.lwo'' \<or> p = ''main.lws''"

definition only_part :: "request \<Rightarrow> unit option" where
  "only_part r = (if fst r = ''part.lwo'' then Some () else None)"

definition loads_missing_nodes :: "NodeDesc list" where
  "loads_missing_nodes =
     [\<lparr>ntype = OBJECT, number = 1, parent = 0, path = ''part.lwo'', id_req = 0,
       children = [], parent_resolved = None\<rparr>,
      \<lparr>ntype = OBJECT, number = 2, parent = 0, path = ''gone.lwo'', id_req = 1,
       children = [], parent_resolved = None\<rparr>]"

section \<open>SMD importer: bone weights of an output mesh\<close>

text \<open>
  \<open>SMDImporter::CreateOutputMeshes\<close>, the part that distributes the vertex weights over
  the bones of one output mesh.  A vertex of the file (\<open>SMD::Vertex\<close>) carries the index
  of its parent bone and its list of (bone index, weight) links; position, normal and
  texture coordinate are not read by this part and are left out.  Bone indices are
  \<open>unsigned int\<close>; \<open>iParentNode\<close> is \<open>0xffffffff\<close> when the file gave \<open>-1\<close> or nothing
  readable.  Weights are \<open>float\<close> in the source; they are modelled by exact reals, so
  that \<open>0.975f\<close> is the number 0.975 and sums are not rounded.  The messages written to
  the logger are left out.
\<close>

record Vertex =
  iParentNode :: "32 word"
  aiBoneLinks :: "(32 word \<times> real) list"

record Face =
  iTexture :: "32 word"
  avVertices :: "Vertex \<times> Vertex \<times> Vertex"

definition UINT_MAX :: "32 word" where
  "UINT_MAX = 0xFFFFFFFF"

text \<open>
  \<open>aaiBones\<close>: one list of (vertex index, weight) entries per bone, an array of
  \<open>asBones.size()\<close> lists that is only ever indexed below that size.  It is modelled
  as a function from the bone index.
\<close>

type_synonym TempWeightListEntry = "nat \<times> real"

type_synonym TempBoneWeightList = "TempWeightListEntry list"

type_synonym bone_tables = "nat \<Rightarrow> TempBoneWeightList"

text \<open>
  The loop over \<open>aiBoneLinks\<close> of one vertex: \<open>nb\<close> is \<open>asBones.size()\<close>, \<open>par\<close> the
  parent bone of the vertex, \<open>iNum\<close> the index of the output vertex; the state is
  \<open>aaiBones\<close> with \<open>fSum\<close>.
\<close>

fun add_links ::
  "nat \<Rightarrow> 32 word \<Rightarrow> nat \<Rightarrow> (32 word \<times> real) list \<Rightarrow> bone_tables \<times> real \<Rightarrow> bone_tables \<times> real"
where
  "add_links nb par iNum [] st = st"
| "add_links nb par iNum (pairval # links) (aaiBones, fSum) =
     (if unat (fst pairval) \<ge> nb \<or> fst pairval = par
      then add_links nb par iNum links (aaiBones, fSum)
      else add_links nb par iNum links
             (aaiBones(unat (fst pairval) := aaiBones (unat (fst pairval)) @ [(iNum, snd pairval)]),
              fSum + snd pairval))"

text \<open>
  \<open>aaiBones[pairval.first].back().second *= fSum\<close>.  \<open>back()\<close> of an empty vector is
  undefined in the source; the loop never meets one (lemma \<open>add_links_nonempty\<close>
  below), and the model leaves an empty list as it is.
\<close>

definition scale_back :: "real \<Rightarrow> TempBoneWeightList \<Rightarrow> TempBoneWeightList" where
  "scale_back f t = (if t = [] then [] else butlast t @ [(fst (last t), snd (last t) * f)])"

fun renormalize :: "nat \<Rightarrow> real \<Rightarrow> (32 word \<times> real) list \<Rightarrow> bone_tables \<Rightarrow> bone_tables" where
  "renormalize nb f [] aaiBones = aaiBones"
| "renormalize nb f (pairval # links) aaiBones =
     (if unat (fst pairval) \<ge> nb then renormalize nb f links aaiBones
      else renormalize nb f links
             (aaiBones(unat (fst pairval) := scale_back f (aaiBones (unat (fst pairval))))))"

text \<open>The body of the loop over the three vertices of a face, for one vertex.\<close>

definition assign_weights :: "nat \<Rightarrow> Vertex \<Rightarrow> nat \<Rightarrow> bone_tables \<Rightarrow> bone_tables" where
  "assign_weights nb v iNum aaiBones =
     (case add_links nb (iParentNode v) iNum (aiBoneLinks v) (aaiBones, 0) of
        (aaiBones1, fSum) \<Rightarrow>
          if fSum < 0.975 \<and> iParentNode v \<noteq> UINT_MAX then
            (if unat (iParentNode v) \<ge> nb then
               (if fSum \<noteq> 0 then renormalize nb (1 / fSum) (aiBoneLinks v) aaiBones1
                else aaiBones1)
             else aaiBones1(unat (iParentNode v) :=
                            aaiBones1 (unat (iParentNode v)) @ [(iNum, 1 - fSum)]))
          else aaiBones1)"

text \<open>
  The loops over the faces of the mesh and the vertices of a face.  \<open>iNum\<close> is an
  \<open>unsigned int\<close> that is incremented once per vertex.
\<close>

fun face_vertices :: "Face \<Rightarrow> Vertex list" where
  "face_vertices f = (case avVertices f of (a, b, c) \<Rightarrow> [a, b, c])"

fun assign_all :: "nat \<Rightarrow> Vertex list \<Rightarrow> nat \<Rightarrow> bone_tables \<Rightarrow> bone_tables" where
  "assign_all nb [] iNum aaiBones = aaiBones"
| "assign_all nb (v # vs) iNum aaiBones =
     assign_all nb vs ((iNum + 1) mod 2 ^ 32) (assign_weights nb v iNum aaiBones)"

definition mesh_vertices :: "Face list \<Rightarrow> Vertex list" where
  "mesh_vertices faces = concat (map face_vertices faces)"

definition mesh_bone_tables :: "nat \<Rightarrow> Face list \<Rightarrow> bone_tables" where
  "mesh_bone_tables nb faces = assign_all nb (mesh_vertices faces) 0 (\<lambda>_. [])"

text \<open>
  \<open>// now build all bones of the mesh\<close>: a bone is created for every non-empty list, with
  the entries of the list as its weights.
\<close>

definition mBones :: "nat \<Rightarrow> Face list \<Rightarrow> (nat \<times> TempBoneWeightList) list" where
  "mBones nb faces =
     filter (\<lambda>(iBone, ws). ws \<noteq> []) (map (\<lambda>iBone. (iBone, mesh_bone_tables nb faces iBone)) [0..<nb])"

subsection \<open>Reading the result\<close>

text \<open>
  The links of a vertex that survive validation, the sum \<open>fSum\<close> of their weights, the
  entries a list holds for one output vertex, and the total weight the mesh gives to
  an output vertex over all bones.
\<close>

definition surviving :: "nat \<Rightarrow> Vertex \<Rightarrow> (32 word \<times> real) list" where
  "surviving nb v =
     filter (\<lambda>pairval. unat (fst pairval) < nb \<and> fst pairval \<noteq> iParentNode v) (aiBoneLinks v)"


definition declared :: "nat \<Rightarrow> Vertex \<Rightarrow> nat \<Rightarrow> nat \<Rightarrow> TempBoneWeightList" where
  "declared nb v k b = map (\<lambda>pairval. (k, snd pairval)) (filter (\<lambda>pairval. unat (fst pairval) = b) (surviving nb v))"






subsection \<open>Example meshes\<close>


text \<open>
  A triangle for a skeleton of three bones.  The first vertex names its parent bone 2
  among its links; the second has the parent bone 7, which does not exist, and two
  links of weight 1/4 each; the third is fully weighted on bone 1.
\<close>

definition plain_face :: Face where
  "plain_face = \<lparr>iTexture = 0, avVertices =
     (\<lparr>iParentNode = 2, aiBoneLinks = [(0, 1 / 4), (2, 1 / 2), (1, 1 / 4)]\<rparr>,
      \<lparr>iParentNode = 7, aiBoneLinks = [(0, 1 / 4), (1, 1 / 4)]\<rparr>,
      \<lparr>iParentNode = 0, aiBoneLinks = [(1, 1)]\<rparr>)\<rparr>"

section \<open>STL importer: detection and the binary reader\<close>

text \<open>
  The buffer is the content of the file; \<open>TextFileToBuffer\<close> terminates it with a zero,
  which is what a read at the position of the file size returns.  \<open>fileSize\<close> is a
  \<open>size_t\<close>.  The face count is read with \<open>memcpy\<close> into a \<open>uint32_t\<close>; the model reads
  it in little-endian byte order.  A \<open>float\<close> of the file is copied, never computed
  with, so it is modelled by its 32-bit pattern and an \<open>aiVector3D\<close> by three of them.
\<close>

type_synonym byte = "8 word"

definition byte_at :: "byte list \<Rightarrow> nat \<Rightarrow> byte" where
  "byte_at buffer i = (if i < length buffer then buffer ! i else 0)"

definition read_u32 :: "byte list \<Rightarrow> nat \<Rightarrow> 32 word" where
  "read_u32 buffer i =
     ucast (byte_at buffer i) OR push_bit 8 (ucast (byte_at buffer (i + 1)))
       OR push_bit 16 (ucast (byte_at buffer (i + 2))) OR push_bit 24 (ucast (byte_at buffer (i + 3)))"

type_synonym aiVector3D = "32 word \<times> 32 word \<times> 32 word"

definition read_vec :: "byte list \<Rightarrow> nat \<Rightarrow> aiVector3D" where
  "read_vec buffer i = (read_u32 buffer i, read_u32 buffer (i + 4), read_u32 buffer (i + 8))"

text \<open>\<open>IsBinarySTL\<close>: the expected size is computed in \<open>uint32_t\<close> and wraps.\<close>

definition IsBinarySTL :: "byte list \<Rightarrow> nat \<Rightarrow> bool" where
  "IsBinarySTL buffer fileSize =
     (if fileSize < 84 then False
      else let faceCount = read_u32 buffer 80;
               expectedBinaryFileSize = faceCount * 50 + 84
           in unat expectedBinaryFileSize = fileSize)"

definition IsSpace :: "byte \<Rightarrow> bool" where
  \<comment> \<open>Modelled from the spec: ParsingUtils.h is not among the sources; blank and tab.\<close>
  "IsSpace c \<longleftrightarrow> c = 0x20 \<or> c = 0x09"

definition IsLineEnd :: "byte \<Rightarrow> bool" where
  \<comment> \<open>Modelled from the spec: ParsingUtils.h is not among the sources; carriage return,
      line feed, zero and form feed.\<close>
  "IsLineEnd c \<longleftrightarrow> c = 0x0D \<or> c = 0x0A \<or> c = 0 \<or> c = 0x0C"

fun SkipSpaces :: "byte list \<Rightarrow> nat \<Rightarrow> nat \<Rightarrow> nat" where
  \<comment> \<open>Modelled from the spec: \<open>skip_spaces\<close> of the scanner (ParsingUtils.h is not among
      the sources): the position of the first byte from \<open>i\<close> on that is no blank or tab,
      \<open>n\<close> bytes at most.\<close>
  "SkipSpaces buffer i 0 = i"
| "SkipSpaces buffer i (Suc n) =
     (if IsSpace (byte_at buffer i) then SkipSpaces buffer (Suc i) n else i)"

text \<open>
  \<open>IsAsciiSTL\<close>.  Whether plain \<open>char\<close> is signed is the compiler's choice, so it is the
  parameter \<open>signed_char\<close>; with a signed \<open>char\<close> the comparison with
  \<open>UnicodeBoundary\<close> never holds.
\<close>

definition above_boundary :: "bool \<Rightarrow> byte \<Rightarrow> bool" where
  "above_boundary signed_char c = (if signed_char then sint c > 127 else uint c > 127)"

definition solid :: "byte list" where
  "solid = [0x73, 0x6F, 0x6C, 0x69, 0x64]"

definition IsAsciiSTL :: "bool \<Rightarrow> byte list \<Rightarrow> nat \<Rightarrow> bool" where
  "IsAsciiSTL signed_char buffer fileSize =
     (if IsBinarySTL buffer fileSize then False
      else let i = SkipSpaces buffer 0 fileSize
           in if IsLineEnd (byte_at buffer i) then False
              else if i + 5 \<ge> fileSize then False
              else if map (\<lambda>k. byte_at buffer (i + k)) [0..<5] = solid
                   then (if fileSize \<ge> 500
                         then \<not> list_ex (\<lambda>k. above_boundary signed_char (byte_at buffer (i + k))) [0..<500]
                         else True)
                   else False)"

text \<open>
  The output mesh: counts, vertex data and faces.  A face is its list of vertex indices
  (\<open>unsigned int\<close>).
\<close>

record 'v aiMesh =
  mNumFaces :: "32 word"
  mNumVertices :: "32 word"
  mVertices :: "'v list"
  mNormals :: "'v list"
  mFaces :: "32 word list list"

text \<open>\<open>addFacesToMesh\<close>: three consecutive indices per face, counted in \<open>p\<close>.\<close>

definition addFacesToMesh :: "32 word \<Rightarrow> 32 word list list" where
  "addFacesToMesh n = map (\<lambda>i. [of_nat (3 * i), of_nat (3 * i + 1), of_nat (3 * i + 2)]) [0..<unat n]"

text \<open>
  The loop over the facets of \<open>LoadBinaryFile\<close>: a facet is 50 bytes, the normal, three
  positions and two bytes of attributes; the normal is stored for each of the three
  vertices.  The result is the pair of \<open>mVertices\<close> and \<open>mNormals\<close>.
\<close>

fun read_facets :: "byte list \<Rightarrow> nat \<Rightarrow> nat \<Rightarrow> aiVector3D list \<times> aiVector3D list" where
  "read_facets buffer sz 0 = ([], [])"
| "read_facets buffer sz (Suc n) =
     (let vn = read_vec buffer sz;
          (vp_rest, vn_rest) = read_facets buffer (sz + 50) n
      in (read_vec buffer (sz + 12) # read_vec buffer (sz + 24) # read_vec buffer (sz + 36) # vp_rest,
          vn # vn # vn # vn_rest))"

text \<open>
  \<open>STLImporter::LoadBinaryFile\<close>.  The vertex colours that a facet attribute or a
  \<open>COLOR=\<close> header may set are computed in floating point and do not touch the
  geometry; they are left out.
\<close>

definition LoadBinaryFile :: "byte list \<Rightarrow> nat \<Rightarrow> import_error + aiVector3D aiMesh" where
  "LoadBinaryFile mBuffer mFileSize =
     (if mFileSize < 84 then Inl (DeadlyImportError ''STL: file is too small for the header'')
      else let n = read_u32 mBuffer 80
           in if mFileSize < 84 + unat n * 50
              then Inl (DeadlyImportError ''STL: file is too small to hold all facets'')
              else if n = 0
              then Inl (DeadlyImportError ''STL: file is empty. There are no facets defined'')
              else case read_facets mBuffer 84 (unat n) of
                     (vp, vn) \<Rightarrow> Inr \<lparr>mNumFaces = n, mNumVertices = n * 3, mVertices = vp,
                                       mNormals = vn, mFaces = addFacesToMesh n\<rparr>)"

text \<open>
  The node that \<open>LoadBinaryFile\<close> creates below the root holds the indices of all meshes
  of the scene, of which there is one.
\<close>

definition binary_node_meshes :: "32 word list" where
  "binary_node_meshes = map of_nat [0..<1]"

subsection \<open>An example file\<close>

text \<open>
  A file of 184 bytes: a header of 80 zero bytes, the face count 2, and two facets whose
  twelve floats are the bytes \<open>i, 0, 0, 0\<close> for \<open>i\<close> from 1 to 12 and from 21 to 32.
\<close>

definition floats_from :: "nat \<Rightarrow> byte list" where
  "floats_from a = concat (map (\<lambda>i. [of_nat (a + i), 0, 0, 0]) [0..<12])"

definition two_facets :: "byte list" where
  "two_facets = replicate 80 0 @ [2, 0, 0, 0] @ floats_from 1 @ [0, 0] @ floats_from 21 @ [0, 0]"

section \<open>SMD importer: the vertex animation section\<close>

text \<open>
  \<open>SMDImporter::ParseVASection\<close> reads the section line by line; blank lines are
  consumed by \<open>SkipSpacesAndLineEnd\<close>.  The model starts from the lines as the function
  classifies them: \<open>end\<close>, \<open>time\<close> with the integer that \<open>ParseSignedInt\<close> returns (none
  when the line stops after the keyword), and any other line, which goes to \<open>ParseVertex\<close>
  and is given here by the vertex that call stores.
\<close>

datatype 'v va_line = End | Time "int option" | Data 'v

text \<open>
  A triangle of the section is its array \<open>avVertices\<close> of three vertices; \<open>None\<close> is a slot
  that still holds the default vertex.
\<close>

type_synonym 'v va_face = "'v option list"

definition emplace_back :: "'v va_face list \<Rightarrow> 'v va_face list" where
  "emplace_back asTriangles = asTriangles @ [[None, None, None]]"

text \<open>
  The assignment to \<open>asTriangles.back().avVertices[iCurIndex]\<close>.  The list is never empty
  there: a triangle is appended whenever \<open>iCurIndex\<close> is 0.
\<close>

definition store_back :: "nat \<Rightarrow> 'v \<Rightarrow> 'v va_face list \<Rightarrow> 'v va_face list" where
  "store_back iCurIndex v asTriangles =
     (if asTriangles = [] then asTriangles
      else butlast asTriangles @ [(last asTriangles)[iCurIndex := Some v]])"

text \<open>
  The loop: the state is \<open>iCurIndex\<close> and \<open>asTriangles\<close>; the result holds the lines that
  are left when the loop is exited.
\<close>

fun va_loop :: "32 word \<Rightarrow> 'v va_line list \<Rightarrow> nat \<Rightarrow> 'v va_face list
                  \<Rightarrow> nat \<times> 'v va_face list \<times> 'v va_line list" where
  "va_loop configFrameID [] iCurIndex asTriangles = (iCurIndex, asTriangles, [])"
| "va_loop configFrameID (End # rest) iCurIndex asTriangles = (iCurIndex, asTriangles, rest)"
| "va_loop configFrameID (Time None # rest) iCurIndex asTriangles = (iCurIndex, asTriangles, rest)"
| "va_loop configFrameID (Time (Some iTime) # rest) iCurIndex asTriangles =
     (if configFrameID \<noteq> word_of_int iTime then (iCurIndex, asTriangles, rest)
      else va_loop configFrameID rest iCurIndex asTriangles)"
| "va_loop configFrameID (Data v # rest) iCurIndex asTriangles =
     (let asTriangles = (if iCurIndex = 0 then emplace_back asTriangles else asTriangles);
          iCurIndex = (if iCurIndex + 1 = 3 then 0 else iCurIndex + 1)
      in va_loop configFrameID rest iCurIndex (store_back iCurIndex v asTriangles))"

definition ParseVASection :: "32 word \<Rightarrow> 'v va_line list \<Rightarrow> 'v va_face list
                  \<Rightarrow> 'v va_face list \<times> 'v va_line list" where
  "ParseVASection configFrameID lines asTriangles =
     (case va_loop configFrameID lines 0 asTriangles of
        (iCurIndex, asTriangles, rest) \<Rightarrow>
          (if iCurIndex \<noteq> 2 \<and> asTriangles \<noteq> [] then butlast asTriangles else asTriangles, rest))"

text \<open>
  \<open>SMDImporter::ParseFile\<close> on a file that is the line \<open>vertexanimation\<close> followed by lines
  of the three kinds above: the section is parsed, and the loop of \<open>ParseFile\<close> skips
  every line that is left, since none of them starts a section.
\<close>

definition ParseFile_va :: "32 word \<Rightarrow> 'v va_line list \<Rightarrow> 'v va_face list" where
  "ParseFile_va configFrameID lines = fst (ParseVASection configFrameID lines [])"

text \<open>
  What the specification asks for, to compare with: the vertices recorded under the
  \<open>time\<close> line of the configured frame, up to the next \<open>time\<close> line or \<open>end\<close>.
\<close>

fun group_data :: "'v va_line list \<Rightarrow> 'v list" where
  "group_data (Data v # rest) = v # group_data rest"
| "group_data _ = []"

fun keyframe_of :: "32 word \<Rightarrow> 'v va_line list \<Rightarrow> 'v list" where
  "keyframe_of configFrameID [] = []"
| "keyframe_of configFrameID (Time (Some iTime) # rest) =
     (if configFrameID = word_of_int iTime then group_data rest else keyframe_of configFrameID rest)"
| "keyframe_of configFrameID (_ # rest) = keyframe_of configFrameID rest"

subsection \<open>Example sections\<close>

text \<open>Three key frames of one triangle each, at the times 0, 5 and 10; a vertex is named
  by a number.\<close>

definition three_keys :: "nat va_line list" where
  "three_keys = [Time (Some 0), Data 1, Data 2, Data 3,
                 Time (Some 5), Data 51, Data 52, Data 53,
                 Time (Some 10), Data 101, Data 102, Data 103, End]"

text \<open>The key frame 5 alone, of one triangle and of two.\<close>

definition one_key :: "nat va_line list" where
  "one_key = [Time (Some 5), Data 51, Data 52, Data 53, End]"

definition one_key_two_faces :: "nat va_line list" where
  "one_key_two_faces = [Time (Some 5), Data 51, Data 52, Data 53, Data 54, Data 55, Data 56, End]"

section \<open>Recursive parsers: LWS elements and AC3D objects\<close>

subsection \<open>\<open>LWS::Element::Parse\<close>\<close>

text \<open>
  The parser of LWS scene files reads line by line; blank lines are consumed by
  \<open>SkipSpacesAndLineEnd\<close>.  A line is a closing brace, or an element: its first token,
  the rest of the line, and whether it is opened by a brace and so has children.
\<close>

datatype lws_line = Close | Line bool string string

datatype lws_element = lws_element string string "lws_element list"

definition MAX_DEPTH :: nat where
  "MAX_DEPTH = 1000"

text \<open>
  The lines between \<open>Plugin\<close> and \<open>EndPlugin\<close> are skipped, whatever they are; the
  comparison is \<open>strncmp\<close> with the nine characters \<open>EndPlugin\<close> at the start of a line.
\<close>

fun is_EndPlugin :: "lws_line \<Rightarrow> bool" where
  "is_EndPlugin (Line False t0 t1) = (take 9 t0 = ''EndPlugin'')"
| "is_EndPlugin _ = False"

definition skip_plugin :: "lws_line list \<Rightarrow> lws_line list" where
  "skip_plugin lines = drop 1 (dropWhile (\<lambda>l. \<not> is_EndPlugin l) lines)"

text \<open>
  \<open>Parse\<close> checks the depth on entry and runs the loop over the lines, \<open>parse_loop\<close>; the
  element of an opening line parses its children at \<open>depth + 1\<close>.  A call returns at a
  closing brace without consuming it: the \<open>SkipLine\<close> of the calling loop does.  The
  result is the list of children and the lines that are left, or the exception thrown.
  The fuel bounds the number of loop iterations; \<open>None\<close> is a run that needs more.
\<close>

fun Parse :: "nat \<Rightarrow> lws_line list \<Rightarrow> nat \<Rightarrow> (import_error + lws_element list \<times> lws_line list) option"
and parse_loop :: "nat \<Rightarrow> lws_line list \<Rightarrow> nat \<Rightarrow> lws_element list
                     \<Rightarrow> (import_error + lws_element list \<times> lws_line list) option"
where
  "Parse fuel lines depth =
     (if depth > MAX_DEPTH
      then Some (Inl (runtime_error ''Maximum recursion depth exceeded in LWS::Element::Parse''))
      else parse_loop fuel lines depth [])"
| "parse_loop 0 lines depth elems = None"
| "parse_loop (Suc fuel) [] depth elems = Some (Inr (elems, []))"
| "parse_loop (Suc fuel) (Close # rest) depth elems = Some (Inr (elems, Close # rest))"
| "parse_loop (Suc fuel) (Line sub t0 t1 # rest) depth elems =
     (if t0 = ''Plugin''
      then parse_loop fuel (skip_plugin rest) depth (elems @ [lws_element t0 [] []])
      else if sub
      then (case Parse fuel rest (depth + 1) of
              None \<Rightarrow> None
            | Some (Inl e) \<Rightarrow> Some (Inl e)
            | Some (Inr (sub_elems, rest')) \<Rightarrow>
                parse_loop fuel (drop 1 rest') depth (elems @ [lws_element t0 t1 sub_elems]))
      else parse_loop fuel rest depth (elems @ [lws_element t0 t1 []]))"

text \<open>An input of \<open>n\<close> opening lines, each inside the one before.\<close>

definition lws_nested :: "nat \<Rightarrow> lws_line list" where
  "lws_nested n = replicate n (Line True ''Channel'' [])"

subsection \<open>\<open>AC3DImporter::LoadObjectSection\<close>\<close>

text \<open>
  The parser of AC3D files reads the lines of an object up to its \<open>kids\<close> line and then
  calls itself for each child.  The function has no depth parameter.  The model covers
  objects without geometry: a line is \<open>OBJECT\<close>, \<open>kids\<close> with its number, or any other line
  the loop passes over (\<open>name\<close>, \<open>texture\<close>, \<open>rot\<close>, \<open>loc\<close> and unknown tokens).  The counter
  \<open>mNumMeshes\<close> is left out.
\<close>

datatype ac_line = OBJECT_line | kids_line nat | other_line

datatype Object = Object "Object list"

text \<open>
  \<open>LoadObjectSection\<close> returns its boolean, the objects it appended to its argument and
  the lines that are left; \<open>object_lines\<close> is the loop \<open>while (GetNextLine())\<close> and \<open>load_kids\<close>
  the loop over the elems.  The fuel bounds the number of calls and iterations.
\<close>

fun LoadObjectSection :: "nat \<Rightarrow> ac_line list \<Rightarrow> (bool \<times> Object list \<times> ac_line list) option"
and object_lines :: "nat \<Rightarrow> ac_line list \<Rightarrow> (bool \<times> Object list \<times> ac_line list) option"
and load_kids :: "nat \<Rightarrow> nat \<Rightarrow> ac_line list \<Rightarrow> Object list \<Rightarrow> (Object list \<times> ac_line list) option"
where
  "LoadObjectSection fuel (OBJECT_line # rest) = object_lines fuel rest"
| "LoadObjectSection fuel lines = Some (False, [], lines)"
| "object_lines 0 lines = None"
| "object_lines (Suc fuel) [] = Some (False, [Object []], [])"
| "object_lines (Suc fuel) (kids_line num # rest) =
     (if num \<noteq> 0
      then (case load_kids fuel num rest [] of
              None \<Rightarrow> None
            | Some (elems, rest') \<Rightarrow> Some (True, [Object elems], rest'))
      else Some (True, [Object []], rest))"
| "object_lines (Suc fuel) (_ # rest) = object_lines fuel rest"
| "load_kids fuel 0 lines elems = Some (elems, lines)"
| "load_kids 0 (Suc k) lines elems = None"
| "load_kids (Suc fuel) (Suc k) lines elems =
     (case LoadObjectSection fuel lines of
        None \<Rightarrow> None
      | Some (ok, objects, rest) \<Rightarrow>
          if ok then load_kids fuel k rest (elems @ objects)
          else Some (elems @ objects, rest))"

text \<open>
  A file of \<open>n\<close> groups, each the only child of the one before, around an object without
  children, and the object tree of that shape.
\<close>

fun ac_nested :: "nat \<Rightarrow> ac_line list" where
  "ac_nested 0 = [OBJECT_line, kids_line 0]"
| "ac_nested (Suc n) = OBJECT_line # kids_line 1 # ac_nested n"

fun nest :: "nat \<Rightarrow> Object" where
  "nest 0 = Object []"
| "nest (Suc n) = Object [nest n]"

fun nesting :: "Object \<Rightarrow> nat" where
  "nesting (Object elems) = Suc (fold max (map nesting elems) 0)"

section \<open>LWS importer: properties of the hierarchy resolution\<close>

subsection \<open>The resolution keeps child lists and resolved parents consistent\<close>

lemma attach_length [simp]: "length (fst (attach eq i j (ns, lg))) = length ns"
  by (simp add: attach_def)

lemma linkedD1: "linked ns \<Longrightarrow> i < length ns \<Longrightarrow> distinct (children (ns ! i))"
  unfolding linked_def by blast

lemma linkedD2:
  "linked ns \<Longrightarrow> i < length ns \<Longrightarrow> j \<in> set (children (ns ! i))
     \<Longrightarrow> j < length ns \<and> parent_resolved (ns ! j) = Some i"
  unfolding linked_def by blast

lemma linkedD3:
  "linked ns \<Longrightarrow> j < length ns \<Longrightarrow> parent_resolved (ns ! j) = Some i
     \<Longrightarrow> i < length ns \<and> j \<in> set (children (ns ! i))"
  unfolding linked_def by blast

lemma attach_linked:
  assumes L: "linked ns" and i: "i < length ns" and j: "j < length ns"
  shows "linked (fst (attach eq i j (ns, lg)))"
proof (cases "claims eq ns i j \<and> parent_resolved (ns ! j) = None")
  case False
  then have "fst (attach eq i j (ns, lg)) = ns" by (auto simp: attach_def)
  then show ?thesis using L by simp
next
  case True
  then have ij: "j \<noteq> i" by (simp add: claims_def)
  have notin: "j \<notin> set (children (ns ! k))" if "k < length ns" for k
    using linkedD2[OF L that, of j] True by auto
  define ms where "ms = ns[i := (ns ! i)\<lparr>children := children (ns ! i) @ [j]\<rparr>,
                 j := (ns ! j)\<lparr>parent_resolved := Some i\<rparr>]"
  have eq: "fst (attach eq i j (ns, lg)) = ms" using True by (simp add: attach_def ms_def)
  have len: "length ms = length ns" by (simp add: ms_def)
  have ch: "children (ms ! k) = (if k = i then children (ns ! i) @ [j] else children (ns ! k))"
    if "k < length ns" for k
    using that ij i j by (cases "k = j"; cases "k = i") (simp_all add: ms_def)
  have pr: "parent_resolved (ms ! k) = (if k = j then Some i else parent_resolved (ns ! k))"
    if "k < length ns" for k
    using that ij i j by (cases "k = j"; cases "k = i") (simp_all add: ms_def)
  have "linked ms" unfolding linked_def len
  proof (intro conjI allI impI ballI)
    fix k assume k: "k < length ns"
    show "distinct (children (ms ! k))"
      using linkedD1[OF L k] linkedD1[OF L i] notin[OF i] by (simp add: ch[OF k])
  next
    fix k m assume k: "k < length ns" and m: "m \<in> set (children (ms ! k))"
    have mlt: "m < length ns"
    proof (cases "m = j")
      case True then show ?thesis using j by simp
    next
      case False
      then have "m \<in> set (children (ns ! k))" using m by (simp add: ch[OF k] split: if_splits)
      then show ?thesis using linkedD2[OF L k] by simp
    qed
    show "m < length ns" by (rule mlt)
    show "parent_resolved (ms ! m) = Some k"
    proof (cases "m = j")
      case True
      then have "k = i" using m notin[OF k] by (simp add: ch[OF k] split: if_splits)
      then show ?thesis using True pr[OF j] by simp
    next
      case False
      then have "m \<in> set (children (ns ! k))" using m by (simp add: ch[OF k] split: if_splits)
      then show ?thesis using linkedD2[OF L k] False by (simp add: pr[OF mlt])
    qed
  next
    fix m k assume m: "m < length ns" and p: "parent_resolved (ms ! m) = Some k"
    have kl: "k < length ns \<and> m \<in> set (children (ms ! k))"
    proof (cases "m = j")
      case True
      then have "k = i" using p pr[OF j] by simp
      then show ?thesis using i True by (simp add: ch[OF i])
    next
      case False
      then have "parent_resolved (ns ! m) = Some k" using p by (simp add: pr[OF m])
      then have *: "k < length ns \<and> m \<in> set (children (ns ! k))" using linkedD3[OF L m] by simp
      then show ?thesis by (auto simp: ch)
    qed
    show "k < length ns" using kl by simp
    show "m \<in> set (children (ms ! k))" using kl by simp
  qed
  then show ?thesis by (simp add: eq)
qed

lemma attach_snd_length:
  "length (snd (attach eq i j (ns, lg))) \<ge> length lg"
  by (simp add: attach_def)

lemma fold_attach_inv:
  assumes "linked ns" "i < length ns" "\<forall>j \<in> set js. j < length ns"
  shows "linked (fst (fold (attach eq i) js (ns, lg))) \<and>
         length (fst (fold (attach eq i) js (ns, lg))) = length ns"
  using assms
proof (induction js arbitrary: ns lg)
  case Nil then show ?case by simp
next
  case (Cons j js)
  obtain ms lg' where a: "attach eq i j (ns, lg) = (ms, lg')" by (cases "attach eq i j (ns, lg)")
  have len: "length ms = length ns" using attach_length[of eq i j ns lg] a by simp
  have lk: "linked ms" using attach_linked[of ns i j eq lg] Cons.prems a by simp
  show ?case using Cons.IH[of ms lg'] lk len Cons.prems a by simp
qed

lemma fold_fold_attach_inv:
  assumes "linked ns" "\<forall>i \<in> set is. i < length ns" "\<forall>j \<in> set js. j < length ns"
  shows "linked (fst (fold (\<lambda>i. fold (attach eq i) js) is (ns, lg))) \<and>
         length (fst (fold (\<lambda>i. fold (attach eq i) js) is (ns, lg))) = length ns"
  using assms
proof (induction "is" arbitrary: ns lg)
  case Nil then show ?case by simp
next
  case (Cons i "is")
  obtain ms lg' where a: "fold (attach eq i) js (ns, lg) = (ms, lg')"
    by (cases "fold (attach eq i) js (ns, lg)")
  have 1: "linked ms \<and> length ms = length ns"
    using fold_attach_inv[of ns i js eq lg] Cons.prems a by simp
  show ?case using Cons.IH[of ms lg'] 1 Cons.prems a by simp
qed

lemma resolve_parenting_linked:
  assumes "linked ns"
  shows "linked (fst (resolve_parenting eq (ns, lg)))"
    and "length (fst (resolve_parenting eq (ns, lg))) = length ns"
  using fold_fold_attach_inv[OF assms, of "[0..<length ns]" "[0..<length ns]" eq lg]
  by (simp_all add: resolve_parenting_def)

subsection \<open>Parent chains: a chain that reaches a root is shorter than the node list\<close>

lemma up_add:
  "up ns (a + b) j = (case up ns a j of None \<Rightarrow> None | Some m \<Rightarrow> up ns b m)"
  by (induction a arbitrary: j) (auto split: option.splits)

lemma up_range:
  "linked ns \<Longrightarrow> j < length ns \<Longrightarrow> up ns k j = Some m \<Longrightarrow> m < length ns"
proof (induction k arbitrary: j)
  case 0 then show ?case by simp
next
  case (Suc k)
  then obtain p where p: "parent_resolved (ns ! j) = Some p" "up ns k p = Some m"
    by (auto split: option.splits)
  then have "p < length ns" using linkedD3[OF Suc.prems(1,2)] by simp
  then show ?case using Suc.IH[OF Suc.prems(1) _ p(2)] by simp
qed

lemma up_root_stops:
  "parent_resolved (ns ! r) = None \<Longrightarrow> up ns c r = Some m \<Longrightarrow> c = 0"
  by (cases c) auto

lemma depth_unique_le:
  assumes "up ns a j = Some r" "parent_resolved (ns ! r) = None"
      and "up ns b j = Some r'" "a \<le> b"
  shows "a = b"
proof -
  obtain c where c: "b = a + c" using assms(4) by (auto simp: le_iff_add)
  have "up ns c r = Some r'" using assms(1,3) up_add[of ns a c j] c by simp
  then have "c = 0" using up_root_stops[OF assms(2)] by blast
  then show ?thesis using c by simp
qed

lemma depth_unique:
  assumes "up ns a j = Some r" "parent_resolved (ns ! r) = None"
      and "up ns b j = Some r'" "parent_resolved (ns ! r') = None"
  shows "a = b"
proof (cases "a \<le> b")
  case True then show ?thesis using depth_unique_le[OF assms(1,2,3)] by simp
next
  case False
  then have "b \<le> a" by simp
  then show ?thesis using depth_unique_le[OF assms(3,4,1)] by simp
qed

lemma up_prefix:
  assumes "up ns d j = Some r" "k \<le> d"
  shows "\<exists>m. up ns k j = Some m"
proof -
  obtain c where "d = k + c" using assms(2) by (auto simp: le_iff_add)
  then show ?thesis using assms(1) up_add[of ns k c j] by (auto split: option.splits)
qed

lemma depth_bound:
  assumes L: "linked ns" and j: "j < length ns"
      and d: "up ns d j = Some r" and r: "parent_resolved (ns ! r) = None"
  shows "d < length ns"
proof (rule ccontr)
  assume "\<not> d < length ns"
  then have nd: "length ns \<le> d" by simp
  define f where "f k = the (up ns k j)" for k
  have fk: "up ns k j = Some (f k)" if "k \<le> d" for k
    using up_prefix[OF d that] by (auto simp: f_def)
  have "f k < length ns" if "k \<le> d" for k
    using fk[OF that] up_range[OF L j] by blast
  then have "f ` {0..d} \<subseteq> {0..<length ns}"
    by auto
  then have "card (f ` {0..d}) \<le> card {0..<length ns}"
    by (intro card_mono) auto
  then have "card (f ` {0..d}) < card {0..d}" using nd by simp
  then have "\<not> inj_on f {0..d}" using pigeonhole by blast
  then obtain a b where ab: "a \<le> d" "b \<le> d" "a \<noteq> b" "f a = f b"
    by (auto simp: inj_on_def)
  have key: False if "a < b" "a \<le> d" "b \<le> d" "f a = f b" for a b
  proof -
    have "up ns (b + (d - b)) j = Some r" using d that by simp
    then have "up ns (d - b) (f b) = Some r" using up_add[of ns b "d - b" j] fk[OF that(3)] by simp
    then have "up ns (a + (d - b)) j = Some r"
      using up_add[of ns a "d - b" j] fk[OF that(2)] that(4) by simp
    then have "a + (d - b) = d" using depth_unique[OF _ r d r] by blast
    then show False using that by simp
  qed
  show False using key[of a b] key[of b a] ab by (cases "a < b") auto
qed

lemma child_depth:
  assumes L: "linked ns" and v: "v < length ns" and c: "c \<in> set (children (ns ! v))"
      and d: "up ns d v = Some r"
  shows "c < length ns \<and> up ns (Suc d) c = Some r"
  using linkedD2[OF L v c] d by simp

subsection \<open>Building the graph from the roots terminates and visits each node once\<close>

lemma below_self: "v < length ns \<Longrightarrow> v \<in> below ns v"
  unfolding below_def by (auto intro: exI[of _ 0])

lemma up_Suc_last:
  "up ns (Suc k) w = (case up ns k w of None \<Rightarrow> None | Some c \<Rightarrow> parent_resolved (ns ! c))"
  using up_add[of ns k 1 w] by (auto split: option.splits)

lemma below_unfold:
  assumes L: "linked ns" and v: "v < length ns"
  shows "below ns v = insert v (\<Union>c\<in>set (children (ns ! v)). below ns c)"
proof (intro set_eqI iffI)
  fix w assume "w \<in> below ns v"
  then obtain k where w: "w < length ns" and k: "up ns k w = Some v" by (auto simp: below_def)
  show "w \<in> insert v (\<Union>c\<in>set (children (ns ! v)). below ns c)"
  proof (cases k)
    case 0 then show ?thesis using k by simp
  next
    case (Suc k')
    then obtain c where c: "up ns k' w = Some c" "parent_resolved (ns ! c) = Some v"
      using k up_Suc_last[of ns k' w] by (auto simp del: up.simps split: option.splits)
    have cl: "c < length ns" using up_range[OF L w c(1)] .
    have "c \<in> set (children (ns ! v))" using linkedD3[OF L cl c(2)] by simp
    moreover have "w \<in> below ns c" using w c(1) by (auto simp: below_def)
    ultimately show ?thesis by blast
  qed
next
  fix w assume "w \<in> insert v (\<Union>c\<in>set (children (ns ! v)). below ns c)"
  then consider "w = v" | c where "c \<in> set (children (ns ! v))" "w \<in> below ns c" by blast
  then show "w \<in> below ns v"
  proof cases
    case 1 then show ?thesis using below_self[OF v] by simp
  next
    case 2
    then obtain k where w: "w < length ns" and k: "up ns k w = Some c" by (auto simp: below_def)
    have "parent_resolved (ns ! c) = Some v" using linkedD2[OF L v 2(1)] by simp
    then have "up ns (Suc k) w = Some v" using k up_Suc_last[of ns k w] by (simp del: up.simps)
    then show ?thesis using w unfolding below_def by blast
  qed
qed

lemma below_disjoint:
  assumes "at_depth ns d c1" "at_depth ns d c2" "w \<in> below ns c1" "w \<in> below ns c2"
  shows "c1 = c2"
proof -
  obtain r1 r2 where r: "up ns d c1 = Some r1" "parent_resolved (ns ! r1) = None"
                        "up ns d c2 = Some r2" "parent_resolved (ns ! r2) = None"
    using assms(1,2) by (auto simp: at_depth_def)
  obtain k1 k2 where k: "up ns k1 w = Some c1" "up ns k2 w = Some c2"
    using assms(3,4) by (auto simp: below_def)
  have 1: "up ns (k1 + d) w = Some r1" using up_add[of ns k1 d w] k r by simp
  have 2: "up ns (k2 + d) w = Some r2" using up_add[of ns k2 d w] k r by simp
  have "k1 + d = k2 + d" using depth_unique[OF 1 r(2) 2 r(4)] .
  then show ?thesis using k by simp
qed

lemma below_child_not_parent:
  assumes L: "linked ns" and v: "at_depth ns d v" and c: "c \<in> set (children (ns ! v))"
  shows "v \<notin> below ns c"
proof
  assume "v \<in> below ns c"
  then obtain k where k: "up ns k v = Some c" by (auto simp: below_def)
  obtain r where r: "up ns d v = Some r" "parent_resolved (ns ! r) = None" and vl: "v < length ns"
    using v by (auto simp: at_depth_def)
  have "up ns (Suc d) c = Some r" using child_depth[OF L vl c r(1)] by simp
  then have "up ns (k + Suc d) v = Some r" using up_add[of ns k "Suc d" v] k by simp
  then have "k + Suc d = d" using depth_unique[OF _ r(2) r(1) r(2)] by blast
  then show False by simp
qed

lemma children_at_depth:
  assumes L: "linked ns" and v: "at_depth ns d v" and c: "c \<in> set (children (ns ! v))"
  shows "at_depth ns (Suc d) c"
proof -
  obtain r where r: "up ns d v = Some r" "parent_resolved (ns ! r) = None" and vl: "v < length ns"
    using v by (auto simp: at_depth_def)
  show ?thesis using child_depth[OF L vl c r(1)] r(2) unfolding at_depth_def by blast
qed

lemma build_children_step:
  assumes P: "\<And>v st. at_depth ns d v \<Longrightarrow>
                \<exists>t st'. BuildGraph fuel get ns v st = Some (t, st') \<and> distinct (items t)
                         \<and> set (items t) = below ns v"
  shows "(\<forall>c\<in>set cs. at_depth ns d c) \<Longrightarrow> distinct cs \<Longrightarrow>
         \<exists>ts st'. BuildChildren fuel get ns cs st = Some (ts, st')
                  \<and> distinct (concat (map items ts))
                  \<and> set (concat (map items ts)) = (\<Union>c\<in>set cs. below ns c)"
proof (induction cs arbitrary: st)
  case Nil then show ?case by simp
next
  case (Cons c cs)
  have cd: "at_depth ns d c" using Cons.prems by simp
  obtain t st1 where t: "BuildGraph fuel get ns c st = Some (t, st1)" "distinct (items t)"
      "set (items t) = below ns c" using P[OF cd, of st] by blast
  have "\<forall>c\<in>set cs. at_depth ns d c" "distinct cs" using Cons.prems by simp_all
  from Cons.IH[OF this, of st1]
  obtain ts st2 where ts: "BuildChildren fuel get ns cs st1 = Some (ts, st2)"
      "distinct (concat (map items ts))"
      "set (concat (map items ts)) = (\<Union>c\<in>set cs. below ns c)" by blast
  have disj: "below ns c \<inter> (\<Union>c'\<in>set cs. below ns c') = {}"
  proof (rule ccontr)
    assume "below ns c \<inter> (\<Union>c'\<in>set cs. below ns c') \<noteq> {}"
    then obtain w c' where w: "w \<in> below ns c" "c' \<in> set cs" "w \<in> below ns c'" by blast
    have "at_depth ns d c'" using Cons.prems(1) w(2) by simp
    then have "c = c'" using below_disjoint[OF cd _ w(1) w(3)] by simp
    then show False using Cons.prems(2) w(2) by simp
  qed
  have res: "BuildChildren fuel get ns (c # cs) st = Some (t # ts, st2)" using t(1) ts(1) by simp
  have "distinct (concat (map items (t # ts)))" using t(2,3) ts(2,3) disj by simp
  moreover have "set (concat (map items (t # ts))) = (\<Union>c\<in>set (c # cs). below ns c)"
    using t(3) ts(3) by simp
  ultimately show ?case using res by blast
qed

lemma build_graph_step:
  assumes L: "linked ns"
    and Q: "\<And>cs st. (\<forall>c\<in>set cs. at_depth ns (Suc d) c) \<Longrightarrow> distinct cs \<Longrightarrow>
         \<exists>ts st'. BuildChildren fuel get ns cs st = Some (ts, st')
                  \<and> distinct (concat (map items ts))
                  \<and> set (concat (map items ts)) = (\<Union>c\<in>set cs. below ns c)"
    and v: "at_depth ns d v"
  shows "\<exists>t st'. BuildGraph (Suc fuel) get ns v st = Some (t, st') \<and> distinct (items t)
                 \<and> set (items t) = below ns v"
proof -
  have vl: "v < length ns" using v by (simp add: at_depth_def)
  obtain att lg where st: "st = (att, lg)" by (cases st)
  define src where "src = ns ! v"
  define ext where "ext = (ntype src = OBJECT \<and> path src \<noteq> [])"
  define obj where "obj = (if ext then get (id_req src) else None)"
  define lg1 where "lg1 = (if ext \<and> obj = None
                 then lg @ [''LWS: Failed to read external file '' @ path src] else lg)"
  define att1 where "att1 = (case obj of None \<Rightarrow> att | Some sc \<Rightarrow> att @ [(sc, Attachment v)])"
  have cs: "\<forall>c\<in>set (children src). at_depth ns (Suc d) c"
    using children_at_depth[OF L v] by (simp add: src_def)
  have dc: "distinct (children src)" using linkedD1[OF L vl] by (simp add: src_def)
  from Q[OF cs dc, of "(att1, lg1)"]
  obtain ts st2 where ts: "BuildChildren fuel get ns (children src) (att1, lg1) = Some (ts, st2)"
      "distinct (concat (map items ts))"
      "set (concat (map items ts)) = (\<Union>c\<in>set (children src). below ns c)" by blast
  define t where "t = (if ntype src = OBJECT then aiNode (Item v) [aiNode (Attachment v) ts]
                   else aiNode (Item v) ts)"
  have "BuildGraph (Suc fuel) get ns v (att, lg) =
          (case BuildChildren fuel get ns (children src) (att1, lg1) of
             None \<Rightarrow> None
           | Some (kids, st2) \<Rightarrow>
               Some (if ntype src = OBJECT then aiNode (Item v) [aiNode (Attachment v) kids]
                     else aiNode (Item v) kids, st2))"
    by (auto simp: Let_def src_def ext_def obj_def lg1_def att1_def split: option.splits)
  then have res: "BuildGraph (Suc fuel) get ns v st = Some (t, st2)"
    using ts(1) by (simp add: st t_def)
  have it: "items t = v # concat (map items ts)" by (simp add: t_def)
  have notin: "v \<notin> (\<Union>c\<in>set (children src). below ns c)"
    using below_child_not_parent[OF L v] by (auto simp: src_def)
  have "distinct (items t)" using it ts(2,3) notin by simp
  moreover have "set (items t) = below ns v"
    using it ts(3) below_unfold[OF L vl] by (simp add: src_def)
  ultimately show ?thesis using res by blast
qed

lemma build_graph_total:
  assumes L: "linked ns"
  shows "length ns \<le> fuel + d \<Longrightarrow> at_depth ns d v \<Longrightarrow>
         \<exists>t st'. BuildGraph fuel get ns v st = Some (t, st') \<and> distinct (items t)
                 \<and> set (items t) = below ns v"
proof (induction fuel arbitrary: d v st)
  case 0
  obtain r where "up ns d v = Some r" "parent_resolved (ns ! r) = None" "v < length ns"
    using 0(2) by (auto simp: at_depth_def)
  then have "d < length ns" using depth_bound[OF L] by blast
  then show ?case using 0(1) by simp
next
  case (Suc fuel)
  have P: "\<exists>t st'. BuildGraph fuel get ns v st = Some (t, st') \<and> distinct (items t)
                         \<and> set (items t) = below ns v" if "at_depth ns (Suc d) v" for v st
    using Suc.IH[of "Suc d" v st] Suc.prems(1) that by simp
  show ?case
    by (rule build_graph_step[OF L _ Suc.prems(2)]) (rule build_children_step[OF P])
qed

lemma roots_at_depth: "\<forall>c\<in>set (roots ns). at_depth ns 0 c"
  by (auto simp: roots_def at_depth_def)

lemma roots_distinct: "distinct (roots ns)"
  by (simp add: roots_def)

lemma build_roots_total:
  assumes L: "linked ns" and f: "length ns \<le> fuel"
  shows "\<exists>ts st'. BuildChildren fuel get ns (roots ns) st = Some (ts, st')
                  \<and> distinct (concat (map items ts))
                  \<and> set (concat (map items ts)) = (\<Union>c\<in>set (roots ns). below ns c)"
proof (rule build_children_step[OF _ roots_at_depth roots_distinct])
  fix v st assume "at_depth ns 0 v"
  then show "\<exists>t st'. BuildGraph fuel get ns v st = Some (t, st') \<and> distinct (items t)
                 \<and> set (items t) = below ns v"
    using build_graph_total[OF L, of fuel 0 v] f by simp
qed

subsection \<open>The element loop leaves every node unattached\<close>

lemma fresh_linked: "fresh ns \<Longrightarrow> linked ns"
  by (auto simp: fresh_def linked_def list_all_length)

lemma fresh_resolved_count: "fresh ns \<Longrightarrow> resolved_count ns = 0"
  by (induction ns) (auto simp: fresh_def resolved_count_def)

lemma fresh_append: "fresh (xs @ ys) \<longleftrightarrow> fresh xs \<and> fresh ys"
  by (auto simp: fresh_def)

lemma fresh_new_node [simp]: "fresh [new_node t n]" "fresh [(new_node t n)\<lparr>path := p, id_req := h\<rparr>]"
  by (simp_all add: fresh_def new_node_def)

lemma fresh_set_last_parent: "fresh (nodes s) \<Longrightarrow> fresh (nodes (set_last_parent p msg s))"
proof (cases "nodes s = []")
  case True then show ?thesis by (simp add: set_last_parent_def fresh_def)
next
  case False
  assume f: "fresh (nodes s)"
  have "nodes s = butlast (nodes s) @ [last (nodes s)]" using False by simp
  then have "fresh (butlast (nodes s))" "fresh [last (nodes s)]"
    using f fresh_append[of "butlast (nodes s)" "[last (nodes s)]"] by simp_all
  then show ?thesis using False by (simp add: set_last_parent_def fresh_append) (simp add: fresh_def)
qed

lemma read_element_fresh:
  "read_element ex sep pFile version motion_file e s = Inr s' \<Longrightarrow> fresh (nodes s) \<Longrightarrow> fresh (nodes s')"
  by (cases e)
     (auto simp: object_number_def fresh_append fresh_set_last_parent Let_def
           split: if_splits prod.splits)

lemma read_elements_fresh:
  "read_elements ex sep pFile version motion_file es s = Inr s' \<Longrightarrow> fresh (nodes s) \<Longrightarrow> fresh (nodes s')"
proof (induction es arbitrary: s)
  case Nil then show ?case by simp
next
  case (Cons e es)
  then show ?case by (auto split: sum.splits dest: read_element_fresh)
qed

lemma initial_fresh: "fresh (nodes initial_state)"
  by (simp add: initial_state_def fresh_def)

subsection \<open>Every claim on an attached node is answered by one logged error\<close>

lemma count_update:
  "j < length xs \<Longrightarrow>
   length (filter P (xs[j := y])) + (if P (xs ! j) then 1 else 0)
     = length (filter P xs) + (if P y then 1 else 0)"
proof (induction xs arbitrary: j)
  case Nil then show ?case by simp
next
  case (Cons x xs) then show ?case by (cases j) auto
qed

lemma attach_ident_nth:
  "k < length ns \<Longrightarrow> ident (fst (attach eq i j (ns, lg)) ! k) = ident (ns ! k)"
  by (cases "k = j"; cases "k = i") (auto simp: attach_def ident_def)

lemma attach_ident: "map ident (fst (attach eq i j (ns, lg))) = map ident ns"
  by (rule nth_equalityI) (simp_all add: attach_ident_nth)

lemma claims_ident:
  assumes "map ident ms = map ident ns" "i < length ns" "j < length ns"
  shows "claims eq ms i j = claims eq ns i j"
proof -
  have len: "length ms = length ns" using assms(1) by (metis length_map)
  have "ident (ms ! k) = ident (ns ! k)" if "k < length ns" for k
    using assms(1) that len by (metis nth_map)
  from this[OF assms(2)] this[OF assms(3)] show ?thesis
    by (simp add: claims_def ident_def)
qed

lemma attach_count:
  assumes i: "i < length ns" and j: "j < length ns"
  shows "\<exists>k. snd (attach eq i j (ns, lg)) = lg @ replicate k cross_reference
            \<and> k + resolved_count (fst (attach eq i j (ns, lg)))
                = resolved_count ns + (if claims eq ns i j then 1 else 0)"
proof (cases "claims eq ns i j")
  case False
  then show ?thesis by (auto simp: attach_def intro: exI[of _ 0])
next
  case True
  then have ij: "j \<noteq> i" by (simp add: claims_def)
  show ?thesis
  proof (cases "parent_resolved (ns ! j) = None")
    case False
    then show ?thesis using True by (auto simp: attach_def intro: exI[of _ 1])
  next
    case None: True
    define a where "a = (ns ! i)\<lparr>children := children (ns ! i) @ [j]\<rparr>"
    define b where "b = (ns ! j)\<lparr>parent_resolved := Some i\<rparr>"
    define P where "P = (\<lambda>n::NodeDesc. parent_resolved n \<noteq> None)"
    have 1: "length (filter P (ns[i := a])) = length (filter P ns)"
      using count_update[OF i, of P a] by (simp add: a_def P_def)
    have "(ns[i := a]) ! j = ns ! j" using ij by simp
    then have 2: "length (filter P (ns[i := a, j := b])) = length (filter P (ns[i := a])) + 1"
      using count_update[of j "ns[i := a]" P b] j None by (simp add: b_def P_def)
    have "fst (attach eq i j (ns, lg)) = ns[i := a, j := b]" "snd (attach eq i j (ns, lg)) = lg"
      using True None by (simp_all add: attach_def a_def b_def)
    then show ?thesis using 1 2 True by (auto simp: resolved_count_def P_def intro: exI[of _ 0])
  qed
qed

lemma fold_attach_count:
  assumes "map ident ns = map ident ns0" "i < length ns0" "\<forall>j\<in>set js. j < length ns0"
  shows "\<exists>k. snd (fold (attach eq i) js (ns, lg)) = lg @ replicate k cross_reference
            \<and> k + resolved_count (fst (fold (attach eq i) js (ns, lg)))
                = resolved_count ns + length (filter (claims eq ns0 i) js)
            \<and> map ident (fst (fold (attach eq i) js (ns, lg))) = map ident ns0"
  using assms
proof (induction js arbitrary: ns lg)
  case Nil then show ?case by simp
next
  case (Cons j js)
  have len: "length ns = length ns0" using Cons.prems(1) by (metis length_map)
  have i: "i < length ns" and j: "j < length ns" using Cons.prems len by simp_all
  obtain ms lg' where a: "attach eq i j (ns, lg) = (ms, lg')" by (cases "attach eq i j (ns, lg)")
  obtain k1 where k1: "lg' = lg @ replicate k1 cross_reference"
      "k1 + resolved_count ms = resolved_count ns + (if claims eq ns i j then 1 else 0)"
    using attach_count[OF i j, of eq lg] a by auto
  have id: "map ident ms = map ident ns0" using attach_ident[of eq i j ns lg] a Cons.prems(1) by simp
  have cl: "claims eq ns i j = claims eq ns0 i j"
    using claims_ident[OF Cons.prems(1)] Cons.prems(2,3) by simp
  from Cons.IH[OF id Cons.prems(2), of lg'] Cons.prems(3)
  obtain k2 where k2: "snd (fold (attach eq i) js (ms, lg')) = lg' @ replicate k2 cross_reference"
      "k2 + resolved_count (fst (fold (attach eq i) js (ms, lg')))
         = resolved_count ms + length (filter (claims eq ns0 i) js)"
      "map ident (fst (fold (attach eq i) js (ms, lg'))) = map ident ns0" by auto
  have "snd (fold (attach eq i) (j # js) (ns, lg)) = lg @ replicate (k1 + k2) cross_reference"
    using a k1(1) k2(1) by (simp add: replicate_add)
  moreover have "(k1 + k2) + resolved_count (fst (fold (attach eq i) (j # js) (ns, lg)))
                = resolved_count ns + length (filter (claims eq ns0 i) (j # js))"
    using a k1(2) k2(2) cl by (cases "claims eq ns0 i j") simp_all
  moreover have "map ident (fst (fold (attach eq i) (j # js) (ns, lg))) = map ident ns0"
    using a k2(3) by simp
  ultimately show ?case by blast
qed

lemma fold_fold_attach_count:
  assumes "map ident ns = map ident ns0" "\<forall>i\<in>set is. i < length ns0" "\<forall>j\<in>set js. j < length ns0"
  shows "\<exists>k. snd (fold (\<lambda>i. fold (attach eq i) js) is (ns, lg)) = lg @ replicate k cross_reference
            \<and> k + resolved_count (fst (fold (\<lambda>i. fold (attach eq i) js) is (ns, lg)))
                = resolved_count ns + sum_list (map (\<lambda>i. length (filter (claims eq ns0 i) js)) is)"
  using assms
proof (induction "is" arbitrary: ns lg)
  case Nil then show ?case by simp
next
  case (Cons i "is")
  obtain ms lg' where a: "fold (attach eq i) js (ns, lg) = (ms, lg')"
    by (cases "fold (attach eq i) js (ns, lg)")
  have i: "i < length ns0" using Cons.prems(2) by simp
  obtain k1 where k1: "lg' = lg @ replicate k1 cross_reference"
      "k1 + resolved_count ms = resolved_count ns + length (filter (claims eq ns0 i) js)"
      "map ident ms = map ident ns0"
    using fold_attach_count[OF Cons.prems(1) i Cons.prems(3), of eq lg] a by auto
  have is': "\<forall>i\<in>set is. i < length ns0" using Cons.prems(2) by simp
  from Cons.IH[OF k1(3) is' Cons.prems(3), of lg']
  obtain k2 where k2:
      "snd (fold (\<lambda>i. fold (attach eq i) js) is (ms, lg')) = lg' @ replicate k2 cross_reference"
      "k2 + resolved_count (fst (fold (\<lambda>i. fold (attach eq i) js) is (ms, lg')))
         = resolved_count ms + sum_list (map (\<lambda>i. length (filter (claims eq ns0 i) js)) is)"
    by auto
  have "snd (fold (\<lambda>i. fold (attach eq i) js) (i # is) (ns, lg))
          = lg @ replicate (k1 + k2) cross_reference"
    using a k1(1) k2(1) by (simp add: replicate_add)
  moreover have "(k1 + k2) + resolved_count (fst (fold (\<lambda>i. fold (attach eq i) js) (i # is) (ns, lg)))
      = resolved_count ns + sum_list (map (\<lambda>i. length (filter (claims eq ns0 i) js)) (i # is))"
    using a k1(2) k2(2) by simp
  ultimately show ?case by blast
qed

lemma resolve_parenting_count:
  "\<exists>k. snd (resolve_parenting eq (ns, lg)) = lg @ replicate k cross_reference
      \<and> k + resolved_count (fst (resolve_parenting eq (ns, lg))) = resolved_count ns + claim_count eq ns"
  using fold_fold_attach_count[of ns ns "[0..<length ns]" "[0..<length ns]" eq lg]
  by (simp add: resolve_parenting_def claim_count_def)

lemma linked_attached_once:
  assumes L: "linked ns"
  shows "distinct (concat (map children ns))"
proof -
  have d: "distinct (concat (map (\<lambda>i. children (ns ! i)) is))"
    if "distinct is" "\<forall>i\<in>set is. i < length ns" for "is"
    using that
  proof (induction "is")
    case Nil then show ?case by simp
  next
    case (Cons i "is")
    have "set (children (ns ! i)) \<inter> set (children (ns ! i')) = {}" if "i' \<in> set is" for i'
    proof (rule ccontr)
      assume "set (children (ns ! i)) \<inter> set (children (ns ! i')) \<noteq> {}"
      then obtain j where j: "j \<in> set (children (ns ! i))" "j \<in> set (children (ns ! i'))" by blast
      have "parent_resolved (ns ! j) = Some i" using linkedD2[OF L _ j(1)] Cons.prems by simp
      moreover have "parent_resolved (ns ! j) = Some i'" using linkedD2[OF L _ j(2)] Cons.prems that by simp
      ultimately show False using Cons.prems(1) that by auto
    qed
    then show ?case using Cons linkedD1[OF L, of i] by auto
  qed
  have "map children ns = map (\<lambda>i. children (ns ! i)) [0..<length ns]"
    by (rule nth_equalityI) simp_all
  then show ?thesis using d[of "[0..<length ns]"] by simp
qed

subsection \<open>The resolution as a whole\<close>

lemma initial_messages: "messages initial_state = []"
  by (simp add: initial_state_def)

lemma roots_below:
  assumes L: "linked ns"
  shows "(\<Union>c\<in>set (roots ns). below ns c) = {w. \<exists>d. at_depth ns d w}"
proof (intro set_eqI iffI)
  fix w assume "w \<in> (\<Union>c\<in>set (roots ns). below ns c)"
  then obtain c k where "c < length ns" "parent_resolved (ns ! c) = None" "w < length ns"
      "up ns k w = Some c" by (auto simp: roots_def below_def)
  then have "at_depth ns k w" unfolding at_depth_def by blast
  then show "w \<in> {w. \<exists>d. at_depth ns d w}" by blast
next
  fix w assume "w \<in> {w. \<exists>d. at_depth ns d w}"
  then obtain d r where w: "w < length ns" "up ns d w = Some r" "parent_resolved (ns ! r) = None"
    by (auto simp: at_depth_def)
  have "r < length ns" using up_range[OF L w(1,2)] .
  then have "r \<in> set (roots ns)" using w(3) by (simp add: roots_def)
  moreover have "w \<in> below ns r" using w by (auto simp: below_def)
  ultimately show "w \<in> (\<Union>c\<in>set (roots ns). below ns c)" by blast
qed

text \<open>
  Claim C4, as the code has it.  In the flat hierarchy resolution a node is attached as a
  child at most once: no node occurs twice in the child lists.  The log grows only by
  "LWS: Found cross reference in scene-graph" errors, one for every pair of nodes for
  which the parent comparison holds but whose attachment was dropped because the child
  already had a parent.  The two loops and the graph construction terminate: with fuel
  for as many calls as there are nodes, \<open>InternReadFile\<close> returns.  If no node is left
  without a parent it returns the fatal "no root" error; otherwise it returns a graph in
  which every node description occurs at most once and which holds exactly the nodes
  whose chain of resolved parents ends in a node without parent.  Nodes on a parent
  cycle, and the nodes below them, have no such chain: they are attached to each other
  without any error and are missing from the graph.
\<close>

theorem flat_hierarchy_resolution:
  assumes rd: "read_elements ex sep pFile version motion_file elems initial_state = Inr s"
      and rs: "resolve_parenting eq (nodes s, messages s) = (ns, lg)"
      and fl: "length (nodes s) \<le> fuel"
  shows "distinct (concat (map children ns))
       \<and> (\<exists>k. lg = messages s @ replicate k cross_reference
              \<and> k + resolved_count ns = claim_count eq (nodes s))
       \<and> (if no_parent ns = 0
          then InternReadFile fuel eq ex sep load pFile version motion_file elems
                 = Some (Inl (DeadlyImportError ''LWS: Unable to find scene root node''))
          else \<exists>sc. InternReadFile fuel eq ex sep load pFile version motion_file elems = Some (Inr sc)
                 \<and> distinct (items (mRootNode sc))
                 \<and> set (items (mRootNode sc)) = {w. \<exists>d. at_depth ns d w})"
proof -
  have fr: "fresh (nodes s)" using read_elements_fresh[OF rd initial_fresh] .
  have L0: "linked (nodes s)" using fresh_linked[OF fr] .
  have L: "linked ns" and len: "length ns = length (nodes s)"
    using resolve_parenting_linked[OF L0, of eq "messages s"] rs by simp_all
  have a: "distinct (concat (map children ns))" using linked_attached_once[OF L] .
  have b: "\<exists>k. lg = messages s @ replicate k cross_reference
              \<and> k + resolved_count ns = claim_count eq (nodes s)"
    using resolve_parenting_count[of eq "nodes s" "messages s"] rs fresh_resolved_count[OF fr]
    by simp
  have c: "if no_parent ns = 0
          then InternReadFile fuel eq ex sep load pFile version motion_file elems
                 = Some (Inl (DeadlyImportError ''LWS: Unable to find scene root node''))
          else \<exists>sc. InternReadFile fuel eq ex sep load pFile version motion_file elems = Some (Inr sc)
                 \<and> distinct (items (mRootNode sc))
                 \<and> set (items (mRootNode sc)) = {w. \<exists>d. at_depth ns d w}"
  proof (cases "no_parent ns = 0")
    case True
    then show ?thesis using rd rs by (simp add: InternReadFile_def)
  next
    case False
    have f: "length ns \<le> fuel" using fl len by simp
    obtain ts att lg2 where ts:
      "BuildChildren fuel (GetImport load (requests s)) ns (roots ns) ([], lg) = Some (ts, att, lg2)"
      "distinct (concat (map items ts))"
      "set (concat (map items ts)) = (\<Union>c\<in>set (roots ns). below ns c)"
      using build_roots_total[OF L f, of "GetImport load (requests s)" "([], lg)"] by auto
    define sc where "sc = \<lparr>mRootNode = aiNode Root ts, attachments = att,
                          mNumCameras = num_camera s, mNumLights = num_light s, logged = lg2\<rparr>"
    have "InternReadFile fuel eq ex sep load pFile version motion_file elems = Some (Inr sc)"
      using rd rs False ts(1) by (simp add: InternReadFile_def sc_def)
    moreover have "items (mRootNode sc) = concat (map items ts)" by (simp add: sc_def)
    ultimately show ?thesis using False ts(2,3) roots_below[OF L] by auto
  qed
  show ?thesis using a b c by blast
qed

lemma root_below_child_read:
  "read_elements (\<lambda>_. False) (CHR ''/'') ''main.lws'' 5 False root_below_child initial_state
     = Inr (initial_state\<lparr>nodes := root_below_child_nodes\<rparr>)"
  by (simp add: root_below_child_def root_below_child_nodes_def initial_state_def object_number_def
      new_node_def set_last_parent_def AI_LWS_MASK_def)

lemma root_below_child_resolved:
  "resolve_parenting node_eq (root_below_child_nodes, []) =
     ([\<lparr>ntype = OBJECT, number = 1, parent = 0x10000002, path = [], id_req = 0,
        children = [1, 2], parent_resolved = Some 1\<rparr>,
       \<lparr>ntype = OBJECT, number = 2, parent = 0x10000001, path = [], id_req = 0,
        children = [0], parent_resolved = Some 0\<rparr>,
       \<lparr>ntype = OBJECT, number = 3, parent = 0x10000001, path = [], id_req = 0,
        children = [], parent_resolved = Some 0\<rparr>], [])"
  by (simp add: resolve_parenting_def root_below_child_nodes_def attach_def claims_def node_eq_def
      AI_LWS_MASK_def cross_reference_def)

text \<open>
  The scenario of the specification against claim C4 as stated: the root \<open>R\<close> names its
  own child \<open>X\<close> as parent.  Nothing is logged and no attachment is dropped (\<open>R\<close> becomes
  a child of \<open>X\<close>, \<open>X\<close> and \<open>Y\<close> children of \<open>R\<close>); no node is left without parent, so
  the import fails and no tree with the node \<open>Y\<close> outside the cycle is produced.
\<close>

theorem cycle_is_not_detected:
  "read_elements (\<lambda>_. False) (CHR ''/'') ''main.lws'' 5 False root_below_child initial_state
     = Inr (initial_state\<lparr>nodes := root_below_child_nodes\<rparr>)
   \<and> snd (resolve_parenting node_eq (root_below_child_nodes, [])) = []
   \<and> map children (fst (resolve_parenting node_eq (root_below_child_nodes, []))) = [[1, 2], [0], []]
   \<and> InternReadFile 4 node_eq (\<lambda>_. False) (CHR ''/'') (\<lambda>_. None :: unit option) ''main.lws'' 5 False
        root_below_child
       = Some (Inl (DeadlyImportError ''LWS: Unable to find scene root node''))"
proof -
  have m: "messages initial_state = []" by (simp add: initial_state_def)
  have "InternReadFile 4 node_eq (\<lambda>_. False) (CHR ''/'') (\<lambda>_. None :: unit option) ''main.lws'' 5 False
        root_below_child
       = Some (Inl (DeadlyImportError ''LWS: Unable to find scene root node''))"
    by (simp add: InternReadFile_def root_below_child_read m root_below_child_resolved no_parent_def)
  then show ?thesis
    by (simp add: root_below_child_read root_below_child_resolved)
qed

lemma twice_claimed_read:
  "read_elements (\<lambda>_. False) (CHR ''/'') ''main.lws'' 5 False twice_claimed initial_state
     = Inr (initial_state\<lparr>nodes := twice_claimed_nodes\<rparr>)"
  by (simp add: twice_claimed_def twice_claimed_nodes_def initial_state_def object_number_def
      new_node_def set_last_parent_def AI_LWS_MASK_def)

lemma twice_claimed_resolve:
  "resolve_parenting node_eq (twice_claimed_nodes, []) = (twice_claimed_resolved, [cross_reference])"
  by (simp add: resolve_parenting_def twice_claimed_nodes_def twice_claimed_resolved_def attach_def
      claims_def node_eq_def AI_LWS_MASK_def)

theorem flat_hierarchy_resolution_witness:
  "read_elements (\<lambda>_. False) (CHR ''/'') ''main.lws'' 5 False twice_claimed initial_state
     = Inr (initial_state\<lparr>nodes := twice_claimed_nodes\<rparr>)
   \<and> resolve_parenting node_eq (twice_claimed_nodes, []) = (twice_claimed_resolved, [cross_reference])
   \<and> length twice_claimed_nodes \<le> 5
   \<and> distinct (concat (map children twice_claimed_resolved))
   \<and> (\<exists>k. [cross_reference] = [] @ replicate k cross_reference
          \<and> k + resolved_count twice_claimed_resolved = claim_count node_eq twice_claimed_nodes)
   \<and> no_parent twice_claimed_resolved = 2
   \<and> (\<exists>sc. InternReadFile 5 node_eq (\<lambda>_. False) (CHR ''/'') (\<lambda>_. None :: unit option)
               ''main.lws'' 5 False twice_claimed = Some (Inr sc)
           \<and> distinct (items (mRootNode sc))
           \<and> set (items (mRootNode sc)) = {w. \<exists>d. at_depth twice_claimed_resolved d w})"
proof -
  let ?s = "initial_state\<lparr>nodes := twice_claimed_nodes\<rparr>"
  have rs: "resolve_parenting node_eq (nodes ?s, messages ?s) = (twice_claimed_resolved, [cross_reference])"
    using twice_claimed_resolve by (simp add: initial_messages)
  have fl: "length (nodes ?s) \<le> 5" by (simp add: twice_claimed_nodes_def)
  have np: "no_parent twice_claimed_resolved = 2"
    by (simp add: no_parent_def twice_claimed_resolved_def)
  show ?thesis
    using flat_hierarchy_resolution [OF twice_claimed_read rs fl, of "\<lambda>_. None :: unit option"]
      twice_claimed_read twice_claimed_resolve np
    by (simp add: initial_messages twice_claimed_nodes_def)
qed

subsection \<open>A scene without root\<close>

lemma no_parent_zero_iff:
  "no_parent ns = 0 \<longleftrightarrow> (\<forall>n \<in> set ns. parent_resolved n \<noteq> None)"
  by (auto simp: no_parent_def filter_empty_conv)

lemma two_cycle_read:
  "read_elements (\<lambda>_. False) (CHR ''/'') ''main.lws'' 5 False two_cycle initial_state
     = Inr (initial_state\<lparr>nodes := two_cycle_nodes\<rparr>)"
  by (simp add: two_cycle_def two_cycle_nodes_def initial_state_def object_number_def
      new_node_def set_last_parent_def AI_LWS_MASK_def)

lemma two_cycle_resolved:
  "resolve_parenting node_eq (two_cycle_nodes, []) =
     ([\<lparr>ntype = OBJECT, number = 1, parent = 0x10000002, path = [], id_req = 0,
        children = [1], parent_resolved = Some 1\<rparr>,
       \<lparr>ntype = OBJECT, number = 2, parent = 0x10000001, path = [], id_req = 0,
        children = [0], parent_resolved = Some 0\<rparr>], [])"
  by (simp add: resolve_parenting_def two_cycle_nodes_def attach_def claims_def node_eq_def AI_LWS_MASK_def cross_reference_def)

text \<open>
  Claim C5.  When the element loop has finished without a fatal error and, after the
  parent-resolution pass, every node has been claimed as a child by some other node (no
  node is left without a resolved parent, which includes the case of no nodes at all),
  the import ends with the fatal error "LWS: Unable to find scene root node" and no
  scene is produced.
\<close>

theorem no_root_is_fatal:
  assumes "read_elements ex sep pFile version motion_file elems initial_state = Inr s"
      and "\<forall>n \<in> set (fst (resolve_parenting eq (nodes s, messages s))). parent_resolved n \<noteq> None"
  shows "InternReadFile fuel eq ex sep load pFile version motion_file elems
           = Some (Inl (DeadlyImportError ''LWS: Unable to find scene root node''))"
  using assms by (simp add: InternReadFile_def no_parent_zero_iff split: prod.splits)

theorem no_root_is_fatal_witness:
  "read_elements (\<lambda>_. False) (CHR ''/'') ''main.lws'' 5 False two_cycle initial_state
     = Inr (initial_state\<lparr>nodes := two_cycle_nodes\<rparr>)
   \<and> map parent_resolved (fst (resolve_parenting node_eq (two_cycle_nodes, []))) = [Some 1, Some 0]
   \<and> InternReadFile 5 node_eq (\<lambda>_. False) (CHR ''/'') (\<lambda>_. None :: unit option) ''main.lws'' 5 False two_cycle
       = Some (Inl (DeadlyImportError ''LWS: Unable to find scene root node''))"
proof -
  have h: "\<forall>n \<in> set (fst (resolve_parenting node_eq (two_cycle_nodes, []))). parent_resolved n \<noteq> None"
    by (simp add: two_cycle_resolved)
  have h': "\<forall>n \<in> set (fst (resolve_parenting node_eq
               (nodes (initial_state\<lparr>nodes := two_cycle_nodes\<rparr>),
                messages (initial_state\<lparr>nodes := two_cycle_nodes\<rparr>)))). parent_resolved n \<noteq> None"
    using h by (simp add: initial_state_def)
  show ?thesis
    using no_root_is_fatal [OF two_cycle_read h', of 5 "\<lambda>_. None :: unit option"] two_cycle_read
    by (simp add: two_cycle_resolved)
qed

subsection \<open>External files: what the graph construction attaches and reports\<close>






subsection \<open>Self-references and missing files\<close>



lemma find_part: "FindLWOFile here (CHR ''/'') ''part.lwo'' = ''part.lwo''"
  by (simp add: FindLWOFile_def here_def)


lemma find_gone: "FindLWOFile here (CHR ''/'') ''gone.lwo'' = ''gone.lwo''"
  by (simp add: FindLWOFile_def here_def)


lemma loads_missing_read:
  "read_elements here (CHR ''/'') ''main.lws'' 5 False loads_missing initial_state
     = Inr (initial_state\<lparr>nodes := loads_missing_nodes, requests := [(''part.lwo'', None), (''gone.lwo'', None)]\<rparr>)"
  by (simp add: loads_missing_def find_part find_gone object_number_def
      initial_state_def AddLoadRequest_def loads_missing_nodes_def new_node_def AI_LWS_MASK_def
      Let_def)

lemma loads_missing_resolved:
  "resolve_parenting node_eq (loads_missing_nodes, []) = (loads_missing_nodes, [])"
  by (simp add: resolve_parenting_def loads_missing_nodes_def attach_def claims_def node_eq_def
      AI_LWS_MASK_def)


lemma loads_missing_result:
  "InternReadFile 2 node_eq here (CHR ''/'') only_part ''main.lws'' 5 False loads_missing
     = Some (Inr \<lparr>mRootNode = aiNode Root [aiNode (Item 0) [aiNode (Attachment 0) []],
                                              aiNode (Item 1) [aiNode (Attachment 1) []]],
                  attachments = [((), Attachment 0)], mNumCameras = 0, mNumLights = 0,
                  logged = [''LWS: Failed to read external file gone.lwo'']\<rparr>)"
proof -
  let ?s = "initial_state\<lparr>nodes := loads_missing_nodes,
                            requests := [(''part.lwo'', None), (''gone.lwo'', None)]\<rparr>"
  have s: "nodes ?s = loads_missing_nodes" "messages ?s = []"
      "requests ?s = [(''part.lwo'', None), (''gone.lwo'', None)]"
      "num_camera initial_state = 0" "num_light initial_state = 0"
    by (simp_all add: initial_state_def)
  have np: "no_parent loads_missing_nodes = 2"
    by (simp add: no_parent_def loads_missing_nodes_def)
  have r: "roots loads_missing_nodes = [0, 1]"
    by (simp add: roots_def loads_missing_nodes_def upt_rec)
  have b: "BuildChildren 2 (GetImport only_part [(''part.lwo'', None), (''gone.lwo'', None)])
             loads_missing_nodes [0, Suc 0] ([], [])
           = Some ([aiNode (Item 0) [aiNode (Attachment 0) []],
                    aiNode (Item 1) [aiNode (Attachment 1) []]],
                   [((), Attachment 0)], [''LWS: Failed to read external file gone.lwo''])"
    by (simp add: eval_nat_numeral loads_missing_nodes_def GetImport_def only_part_def)
  show ?thesis
    unfolding InternReadFile_def loads_missing_read
    by (simp add: s loads_missing_resolved np r b del: BuildChildren.simps BuildGraph.simps)
qed

section \<open>SMD importer: properties of the bone weights\<close>

subsection \<open>The loops, bone by bone\<close>

lemma add_links_at:
  "fst (add_links nb par i ls (T, s)) b =
     T b @ map (\<lambda>pv. (i, snd pv)) (filter (\<lambda>pv. unat (fst pv) = b \<and> unat (fst pv) < nb \<and> fst pv \<noteq> par) ls)"
  by (induction ls arbitrary: T s) (auto simp: not_le)


lemma scale_back_one [simp]: "scale_back 1 t = t"
  by (simp add: scale_back_def)




lemma add_links_declared:
  "fst (add_links nb (iParentNode v) k (aiBoneLinks v) (T, 0)) b = T b @ declared nb v k b"
  by (simp add: add_links_at declared_def surviving_def conj_commute conj_left_commute)


text \<open>The list that \<open>back()\<close> is taken of is never empty.\<close>

lemma add_links_nonempty:
  fixes v :: Vertex
  assumes "pv \<in> set (aiBoneLinks v)" "unat (fst pv) < nb" "nb \<le> unat (iParentNode v)"
  shows "fst (add_links nb (iParentNode v) k (aiBoneLinks v) (T, 0)) (unat (fst pv)) \<noteq> []"
proof -
  have "fst pv \<noteq> iParentNode v" using assms(2,3) by auto
  then have "pv \<in> set (filter (\<lambda>p. unat (fst p) = unat (fst pv)) (surviving nb v))"
    using assms(1,2) by (simp add: surviving_def)
  then have "declared nb v k (unat (fst pv)) \<noteq> []"
    unfolding declared_def by (metis empty_iff list.set(1) map_is_Nil_conv)
  then show ?thesis by (simp add: add_links_declared)
qed




subsection \<open>The lists of a mesh, vertex by vertex\<close>












subsection \<open>Totals and the three outcomes of the resolution\<close>








subsection \<open>Total weight and entries of a vertex\<close>




lemma plain_vertices:
  "mesh_vertices [plain_face] =
     [\<lparr>iParentNode = 2, aiBoneLinks = [(0, 1 / 4), (2, 1 / 2), (1, 1 / 4)]\<rparr>,
      \<lparr>iParentNode = 7, aiBoneLinks = [(0, 1 / 4), (1, 1 / 4)]\<rparr>,
      \<lparr>iParentNode = 0, aiBoneLinks = [(1, 1)]\<rparr>]"
  by (simp add: mesh_vertices_def plain_face_def)

lemma plain_tables:
  "mesh_bone_tables 3 [plain_face] 0 = [(0, 1 / 4), (1, 1 / 2)]"
  "mesh_bone_tables 3 [plain_face] (Suc 0) = [(0, 1 / 4), (1, 1 / 2), (2, 1)]"
  "mesh_bone_tables 3 [plain_face] 2 = [(0, 1 / 2)]"
  by (simp_all add: mesh_bone_tables_def plain_vertices assign_weights_def UINT_MAX_def
      scale_back_def)












subsection \<open>Links to the parent bone\<close>









text \<open>
  A link list that names a bone twice shows what \<open>back()\<close> does in the renormalisation:
  the last entry of the bone is multiplied twice and the entry before it not at all.
\<close>

lemma renormalize_repeated_bone:
  "assign_weights 3 \<lparr>iParentNode = 7, aiBoneLinks = [(0, 1 / 4), (0, 1 / 4)]\<rparr> 5 (\<lambda>_. []) 0
     = [(5, 1 / 4), (5, 1)]"
  by (simp add: assign_weights_def UINT_MAX_def scale_back_def)

section \<open>STL: the minimal binary file\<close>

lemma read_facets_length:
  "length (fst (read_facets buffer sz n)) = 3 * n \<and> length (snd (read_facets buffer sz n)) = 3 * n"
  by (induction n arbitrary: sz) (simp_all add: Let_def split_beta)

lemma two_facets_length: "length two_facets = 184"
  by (simp add: two_facets_def floats_from_def upt_rec)

lemma two_facets_count: "read_u32 two_facets 80 = 2"
  by (simp add: read_u32_def byte_at_def two_facets_def nth_append)

text \<open>
  Claim C8.  A buffer of exactly \<open>84 + 2 * 50\<close> bytes whose count at offset 80 is 2 is
  classified as binary and not as ASCII, and \<open>LoadBinaryFile\<close> returns a mesh of 2 faces
  and 6 vertices: the three positions of each facet in order, the normal of each facet
  stored for each of its three vertices, and the faces \<open>[0, 1, 2]\<close> and \<open>[3, 4, 5]\<close>.
\<close>

theorem minimal_binary_file:
  assumes "length buffer = 84 + 2 * 50" and "read_u32 buffer 80 = 2"
  shows "IsBinarySTL buffer (length buffer)
       \<and> \<not> IsAsciiSTL signed_char buffer (length buffer)
       \<and> LoadBinaryFile buffer (length buffer)
           = Inr \<lparr>mNumFaces = 2, mNumVertices = 6,
                  mVertices = [read_vec buffer 96, read_vec buffer 108, read_vec buffer 120,
                               read_vec buffer 146, read_vec buffer 158, read_vec buffer 170],
                  mNormals = [read_vec buffer 84, read_vec buffer 84, read_vec buffer 84,
                              read_vec buffer 134, read_vec buffer 134, read_vec buffer 134],
                  mFaces = [[0, 1, 2], [3, 4, 5]]\<rparr>"
proof -
  have b: "IsBinarySTL buffer (length buffer)"
    using assms by (simp add: IsBinarySTL_def)
  have a: "\<not> IsAsciiSTL signed_char buffer (length buffer)"
    using b by (simp add: IsAsciiSTL_def)
  have u: "unat (2 :: 32 word) = Suc (Suc 0)" by simp
  have f: "read_facets buffer 84 (unat (2 :: 32 word))
             = ([read_vec buffer 96, read_vec buffer 108, read_vec buffer 120,
                 read_vec buffer 146, read_vec buffer 158, read_vec buffer 170],
                [read_vec buffer 84, read_vec buffer 84, read_vec buffer 84,
                 read_vec buffer 134, read_vec buffer 134, read_vec buffer 134])"
    unfolding u by (simp add: Let_def)
  have g: "addFacesToMesh 2 = [[0, 1, 2], [3, 4, 5]]"
    by (simp add: addFacesToMesh_def upt_rec)
  have l: "LoadBinaryFile buffer (length buffer)
           = Inr \<lparr>mNumFaces = 2, mNumVertices = 6,
                  mVertices = [read_vec buffer 96, read_vec buffer 108, read_vec buffer 120,
                               read_vec buffer 146, read_vec buffer 158, read_vec buffer 170],
                  mNormals = [read_vec buffer 84, read_vec buffer 84, read_vec buffer 84,
                              read_vec buffer 134, read_vec buffer 134, read_vec buffer 134],
                  mFaces = [[0, 1, 2], [3, 4, 5]]\<rparr>"
    unfolding LoadBinaryFile_def assms Let_def f g by simp
  show ?thesis using a b l by blast
qed

lemma two_facets_vec:
  "read_vec two_facets 84 = (1, 2, 3)" "read_vec two_facets 96 = (4, 5, 6)"
  "read_vec two_facets 108 = (7, 8, 9)" "read_vec two_facets 120 = (10, 11, 12)"
  "read_vec two_facets 134 = (21, 22, 23)" "read_vec two_facets 146 = (24, 25, 26)"
  "read_vec two_facets 158 = (27, 28, 29)" "read_vec two_facets 170 = (30, 31, 32)"
  by (simp_all add: read_vec_def read_u32_def byte_at_def two_facets_def floats_from_def upt_rec nth_append)

theorem minimal_binary_file_witness:
  "length two_facets = 84 + 2 * 50 \<and> read_u32 two_facets 80 = 2
   \<and> IsBinarySTL two_facets 184 \<and> \<not> IsAsciiSTL True two_facets 184
   \<and> LoadBinaryFile two_facets 184
       = Inr \<lparr>mNumFaces = 2, mNumVertices = 6,
              mVertices = [(4, 5, 6), (7, 8, 9), (10, 11, 12), (24, 25, 26), (27, 28, 29), (30, 31, 32)],
              mNormals = [(1, 2, 3), (1, 2, 3), (1, 2, 3), (21, 22, 23), (21, 22, 23), (21, 22, 23)],
              mFaces = [[0, 1, 2], [3, 4, 5]]\<rparr>"
  using minimal_binary_file [of two_facets True] two_facets_length two_facets_count
  by (simp add: two_facets_vec)


section \<open>SMD: the time filter of the vertex animation section\<close>

lemma first_time_decides:
  "configFrameID \<noteq> word_of_int iTime \<Longrightarrow>
   ParseFile_va configFrameID (Time (Some iTime) # rest) = []"
  by (simp add: ParseFile_va_def ParseVASection_def)

lemma one_key_loses_its_triangle:
  "ParseFile_va 5 one_key = [] \<and> keyframe_of 5 one_key = [51, 52, 53]"
  by (simp add: ParseFile_va_def ParseVASection_def one_key_def emplace_back_def store_back_def Let_def)

lemma one_key_two_faces_keeps_first:
  "ParseFile_va 5 one_key_two_faces = [[Some 53, Some 51, Some 52]]"
  by (simp add: ParseFile_va_def ParseVASection_def one_key_two_faces_def emplace_back_def
      store_back_def Let_def)

text \<open>
  Claim C9.  With the configured frame 5 and key frames recorded at the times 0, 5 and 10,
  the vertex set recorded at time 5 is \<open>[51, 52, 53]\<close>, but the section parser retains
  nothing: the line \<open>time 0\<close> does not match, and the loop is left there instead of
  passing on to the next key frame.
\<close>

theorem time_filter_stops_at_first_other_time:
  "ParseFile_va 5 three_keys = [] \<and> keyframe_of 5 three_keys = [51, 52, 53]"
  by (simp add: ParseFile_va_def ParseVASection_def three_keys_def)

section \<open>The depth of recursive parsing\<close>

lemma skip_plugin_length: "length (skip_plugin lines) \<le> length lines"
proof -
  have "length (dropWhile (\<lambda>l. \<not> is_EndPlugin l) lines) \<le> length lines"
    by (rule length_dropWhile_le)
  then show ?thesis unfolding skip_plugin_def by simp
qed

lemma parse_loop_rest:
  "parse_loop fuel lines depth elems = Some (Inr (cs, rest)) \<Longrightarrow> length rest \<le> length lines"
proof (induction fuel arbitrary: lines depth elems cs rest)
  case 0
  then show ?case by simp
next
  case (Suc fuel)
  show ?case
  proof (cases lines)
    case Nil
    then show ?thesis using Suc.prems by simp
  next
    case (Cons l ls)
    show ?thesis
    proof (cases l)
      case Close
      then show ?thesis using Suc.prems Cons by auto
    next
      case (Line sub t0 t1)
      consider (plugin) "t0 = ''Plugin''" | (sub) "t0 \<noteq> ''Plugin''" "sub" | (leaf) "t0 \<noteq> ''Plugin''" "\<not> sub"
        by blast
      then show ?thesis
      proof cases
        case plugin
        then have "parse_loop fuel (skip_plugin ls) depth (elems @ [lws_element t0 [] []]) = Some (Inr (cs, rest))"
          using Suc.prems Cons Line by simp
        from Suc.IH [OF this] show ?thesis using skip_plugin_length [of ls] Cons by simp
      next
        case sub
        then obtain sc r where
          p: "parse_loop fuel ls (depth + 1) [] = Some (Inr (sc, r))"
          and q: "parse_loop fuel (drop 1 r) depth (elems @ [lws_element t0 t1 sc]) = Some (Inr (cs, rest))"
          using Suc.prems Cons Line
          by (auto split: if_splits option.splits sum.splits prod.splits)
        from Suc.IH [OF p] Suc.IH [OF q] show ?thesis using Cons by simp
      next
        case leaf
        then have "parse_loop fuel ls depth (elems @ [lws_element t0 t1 []]) = Some (Inr (cs, rest))"
          using Suc.prems Cons Line by simp
        from Suc.IH [OF this] show ?thesis using Cons by simp
      qed
    qed
  qed
qed

lemma parse_loop_total:
  "length lines < fuel \<Longrightarrow> \<exists>r. parse_loop fuel lines depth elems = Some r"
proof (induction fuel arbitrary: lines depth elems)
  case 0
  then show ?case by simp
next
  case (Suc fuel)
  show ?case
  proof (cases lines)
    case Nil
    then show ?thesis by simp
  next
    case (Cons l ls)
    then have ls: "length ls < fuel" using Suc.prems by simp
    show ?thesis
    proof (cases l)
      case Close
      then show ?thesis using Cons by simp
    next
      case (Line sub t0 t1)
      consider (plugin) "t0 = ''Plugin''" | (sub) "t0 \<noteq> ''Plugin''" "sub" | (leaf) "t0 \<noteq> ''Plugin''" "\<not> sub"
        by blast
      then show ?thesis
      proof cases
        case plugin
        have "length (skip_plugin ls) < fuel" using skip_plugin_length [of ls] ls by simp
        from Suc.IH [OF this] show ?thesis using plugin Cons Line by simp
      next
        case sub
        obtain r where r: "parse_loop fuel ls (depth + 1) [] = Some r"
          using Suc.IH [OF ls] by blast
        show ?thesis
        proof (cases r)
          case (Inl e)
          then show ?thesis using r sub Cons Line by simp
        next
          case (Inr p)
          obtain sc rest' where p: "p = (sc, rest')" by (cases p)
          have "length rest' \<le> length ls" using parse_loop_rest r Inr p by blast
          then have "length (drop 1 rest') < fuel" using ls by simp
          from Suc.IH [OF this] show ?thesis using r Inr p sub Cons Line by simp
        qed
      next
        case leaf
        from Suc.IH [OF ls] show ?thesis using leaf Cons Line by simp
      qed
    qed
  qed
qed

lemma Parse_total:
  "length lines < fuel \<Longrightarrow> \<exists>r. Parse fuel lines depth = Some r"
  using parse_loop_total by simp

lemma parse_nested_too_deep:
  "depth \<le> MAX_DEPTH \<Longrightarrow> MAX_DEPTH < depth + n \<Longrightarrow> n \<le> fuel \<Longrightarrow>
   parse_loop fuel (replicate n (Line True ''Channel'' []) @ rest) depth elems
     = Some (Inl (runtime_error ''Maximum recursion depth exceeded in LWS::Element::Parse''))"
proof (induction n arbitrary: depth fuel elems)
  case 0
  then show ?case by simp
next
  case (Suc n)
  obtain f where f: "fuel = Suc f" "n \<le> f" using Suc.prems(3) by (cases fuel) auto
  show ?case
  proof (cases "Suc depth > MAX_DEPTH")
    case True
    then show ?thesis using f by simp
  next
    case False
    then have "parse_loop f (replicate n (Line True ''Channel'' []) @ rest) (Suc depth) []
       = Some (Inl (runtime_error ''Maximum recursion depth exceeded in LWS::Element::Parse''))"
      using Suc.IH [of "Suc depth" f "[]"] Suc.prems f by simp
    then show ?thesis using f False by simp
  qed
qed

lemma parse_too_deep:
  "MAX_DEPTH < n \<Longrightarrow> n \<le> fuel \<Longrightarrow>
   Parse fuel (lws_nested n) 0
     = Some (Inl (runtime_error ''Maximum recursion depth exceeded in LWS::Element::Parse''))"
  using parse_nested_too_deep [of 0 n fuel "[]" "[]"] by (simp add: lws_nested_def MAX_DEPTH_def)

lemma load_nested:
  "2 * n < fuel \<Longrightarrow> LoadObjectSection fuel (ac_nested n @ rest) = Some (True, [nest n], rest)"
proof (induction n arbitrary: fuel)
  case 0
  then obtain f where "fuel = Suc f" by (cases fuel) auto
  then show ?case by simp
next
  case (Suc n)
  then obtain f where f: "fuel = Suc (Suc f)" "2 * n < f"
    by (cases fuel; cases "fuel - 1") auto
  have "LoadObjectSection f (ac_nested n @ rest) = Some (True, [nest n], rest)"
    using Suc.IH f by simp
  then show ?case using f by simp
qed

lemma nesting_nest: "nesting (nest n) = Suc n"
  by (induction n) simp_all

text \<open>
  Claim C7.  On an input nested 10000 levels deep, \<open>LWS::Element::Parse\<close>, started at
  depth 0, stops with the error of the depth limit; \<open>AC3DImporter::LoadObjectSection\<close>,
  which carries no depth, descends through all the levels and returns an object tree of
  10001 nested objects.
\<close>

theorem object_sections_have_no_depth_limit:
  "Parse 10000 (lws_nested 10000) 0
     = Some (Inl (runtime_error ''Maximum recursion depth exceeded in LWS::Element::Parse''))
   \<and> LoadObjectSection 20001 (ac_nested 10000) = Some (True, [nest 10000], [])
   \<and> nesting (nest 10000) = 10001"
proof -
  have a: "Parse 10000 (lws_nested 10000) 0
     = Some (Inl (runtime_error ''Maximum recursion depth exceeded in LWS::Element::Parse''))"
    by (rule parse_too_deep) (simp_all add: MAX_DEPTH_def)
  have "LoadObjectSection 20001 (ac_nested 10000 @ []) = Some (True, [nest 10000], [])"
    by (rule load_nested) simp
  then have b: "LoadObjectSection 20001 (ac_nested 10000) = Some (True, [nest 10000], [])"
    by (simp only: append_Nil2)
  have c: "nesting (nest 10000) = 10001"
    unfolding nesting_nest by simp
  show ?thesis using a b c by blast
qed


end
